theory Spec2Isabelle
  imports Complex_Main "HOL-Library.Finite_Map" "HOL-Library.Char_ord" "HOL-Library.List_Lexorder"
begin

section \<open>jsondiff.py: the structural difference of two JSON values\<close>

subsection \<open>JSON values as \<^verbatim>\<open>json.load\<close> produces them\<close>

text \<open>
  A Python float is an IEEE double: a finite value, a signed zero, an infinity or NaN.
  The finite values are kept as rationals; negative zero is a value of its own because
  Python tells it apart from \<open>0.0\<close> when printing, though \<open>==\<close> does not.
\<close>

datatype pyfloat = Finite rat | NegZero | PInf | NInf | NaN

text \<open>
  \<^verbatim>\<open>json.load\<close> returns \<open>None\<close>, a \<open>bool\<close>, an \<open>int\<close>, a \<open>float\<close>, a \<open>str\<close>,
  a \<open>list\<close> or a \<open>dict\<close> with string keys. A dict is a finite map: Python compares dicts
  without regard to the order of their keys.
\<close>

datatype json =
    JNull
  | JBool bool
  | JInt int
  | JFloat pyfloat
  | JStr string
  | JList "json list"
  | JDict "(string, json) fmap"

datatype pytype = NoneType | TBool | TInt | TFloat | TStr | TList | TDict

text \<open>\<^verbatim>\<open>type(x)\<close>: the class of the value; \<open>int\<close> and \<open>float\<close> are two classes.\<close>

fun py_type :: "json \<Rightarrow> pytype" where
  "py_type JNull = NoneType"
| "py_type (JBool _) = TBool"
| "py_type (JInt _) = TInt"
| "py_type (JFloat _) = TFloat"
| "py_type (JStr _) = TStr"
| "py_type (JList _) = TList"
| "py_type (JDict _) = TDict"

definition A_SIDE :: string where
  "A_SIDE = ''A_SIDE''"

definition B_SIDE :: string where
  "B_SIDE = ''B_SIDE''"

text \<open>\<^verbatim>\<open>x == y\<close> on two floats: NaN equals nothing, the two zeros are equal.\<close>

fun float_eq :: "pyfloat \<Rightarrow> pyfloat \<Rightarrow> bool" where
  "float_eq NaN _ = False"
| "float_eq _ NaN = False"
| "float_eq NegZero y = (y = NegZero \<or> y = Finite 0)"
| "float_eq x NegZero = (x = Finite 0)"
| "float_eq x y = (x = y)"

text \<open>
  \<^verbatim>\<open>a_side == b_side\<close> where \<open>difference\<close> evaluates it: on two values of the same class
  that are neither \<open>None\<close>, a dict nor a list.
\<close>

fun py_eq :: "json \<Rightarrow> json \<Rightarrow> bool" where
  "py_eq (JFloat x) (JFloat y) = float_eq x y"
| "py_eq a b = (a = b)"

text \<open>\<^verbatim>\<open>d.get(key)\<close>: the value, or \<open>None\<close> for a key that is not there.\<close>

definition dget :: "(string, json) fmap \<Rightarrow> string \<Rightarrow> json" where
  "dget m key = (case fmlookup m key of None \<Rightarrow> JNull | Some v \<Rightarrow> v)"

text \<open>\<^verbatim>\<open>itertools.zip_longest(a, b)\<close>: the shorter list is filled up with \<open>None\<close>.\<close>

fun zip_longest :: "json list \<Rightarrow> json list \<Rightarrow> (json \<times> json) list" where
  "zip_longest [] [] = []"
| "zip_longest (a # as) [] = (a, JNull) # zip_longest as []"
| "zip_longest [] (b # bs) = (JNull, b) # zip_longest [] bs"
| "zip_longest (a # as) (b # bs) = (a, b) # zip_longest as bs"

text \<open>
  Iterating over a dict or over a set of strings: Python leaves the order of a set to the
  hashes of its elements. The model enumerates the keys in sorted order; the value that
  \<open>difference\<close> builds does not depend on the order, and the theorems about the rows of
  \<open>list_differences\<close> count rows and do not refer to their order.
\<close>

definition dict_keys :: "(string, json) fmap \<Rightarrow> string list" where
  "dict_keys m = sorted_list_of_fset (fmdom m)"

text \<open>\<^verbatim>\<open>set(a_side) | set(b_side)\<close>, enumerated.\<close>

definition key_union :: "(string, json) fmap \<Rightarrow> (string, json) fmap \<Rightarrow> string list" where
  "key_union a b = sorted_list_of_fset (fmdom a |\<union>| fmdom b)"

lemma size_fmlookup:
  "fmlookup (m :: (string, json) fmap) k = Some v \<Longrightarrow> size v < Suc (size_fmap (\<lambda>_. 0) size m)"
proof -
  let ?f = "\<lambda>x::string \<times> json. Suc (size (snd x))"
  assume "fmlookup m k = Some v"
  then have "(k, v) \<in> fset (fset_of_fmap m)"
    by simp
  then have "?f (k, v) \<le> sum ?f (fset (fset_of_fmap m))"
    by (intro member_le_sum) auto
  then show ?thesis by (simp add: case_prod_unfold)
qed

lemma size_dget: "size (dget m k) < Suc (size_fmap (\<lambda>_. 0) size m)"
  by (auto simp: dget_def split: option.splits dest: size_fmlookup simp del: size_fmap_def)

lemma size_zip_longest:
  "(x, y) \<in> set (zip_longest xs ys) \<Longrightarrow> size x + size y < Suc (size_list size xs + size_list size ys)"
  by (induction xs ys rule: zip_longest.induct) auto

subsection \<open>\<open>difference\<close>\<close>

text \<open>
  The branches of the source, in its order: \<open>b_side is None\<close>, \<open>a_side is None\<close>, differing
  classes, two dicts, two lists, equal leaves, unequal leaves.
\<close>

function difference :: "json \<Rightarrow> json \<Rightarrow> json" where
  "difference a_side b_side =
    (if b_side = JNull then JDict (fmap_of_list [(A_SIDE, a_side)])
     else if a_side = JNull then JDict (fmap_of_list [(B_SIDE, b_side)])
     else if py_type a_side \<noteq> py_type b_side
       then JDict (fmap_of_list [(A_SIDE, a_side), (B_SIDE, b_side)])
     else case (a_side, b_side) of
         (JDict a, JDict b) \<Rightarrow>
           JDict (fmap_of_list (map (\<lambda>key. (key, difference (dget a key) (dget b key)))
                                    (key_union a b)))
       | (JList a, JList b) \<Rightarrow>
           JList (map (\<lambda>(x, y). difference x y) (zip_longest a b))
       | _ \<Rightarrow>
           if py_eq a_side b_side then a_side
           else JDict (fmap_of_list [(A_SIDE, a_side), (B_SIDE, b_side)]))"
  by pat_completeness auto
termination
  apply (relation "measure (\<lambda>(a, b). size a + size b)")
    apply simp
  subgoal for a b x y l1 l2 p u v
    using size_zip_longest[of u v l1 l2] by auto
  subgoal for a b x y m1 m2 key
    using size_dget[of m1 key] size_dget[of m2 key] by (auto simp del: size_fmap_def)
  done

declare difference.simps [simp del]


subsection \<open>Difference markers, reserved keys, paths\<close>

text \<open>
  A difference marker is a dict with the key \<open>A_SIDE\<close> or the key \<open>B_SIDE\<close>: the test
  \<^verbatim>\<open>B_SIDE in diff or A_SIDE in diff\<close> of \<open>list_differences\<close>.
\<close>

definition is_marker :: "json \<Rightarrow> bool" where
  "is_marker d =
    (case d of JDict m \<Rightarrow> B_SIDE |\<in>| fmdom m \<or> A_SIDE |\<in>| fmdom m | _ \<Rightarrow> False)"

text \<open>\<open>json_all P x\<close>: the test \<open>P\<close> holds of \<open>x\<close> and of every value nested in it.\<close>

function json_all :: "(json \<Rightarrow> bool) \<Rightarrow> json \<Rightarrow> bool" where
  "json_all P x =
    (P x \<and>
     (case x of
        JList xs \<Rightarrow> list_all (json_all P) xs
      | JDict m \<Rightarrow> list_all (\<lambda>key. json_all P (dget m key)) (dict_keys m)
      | _ \<Rightarrow> True))"
  by pat_completeness auto
termination
  apply (relation "measure (\<lambda>(P, x). size x)")
    apply simp
  subgoal for P x xs v
    by (auto simp: less_Suc_eq_le size_list_estimation')
  subgoal for P x m key
    using size_dget[of m key] by (auto simp del: size_fmap_def)
  done

declare json_all.simps [simp del]

text \<open>No \<open>None\<close> anywhere in the value (JSON \<open>null\<close> loads as \<open>None\<close>).\<close>

definition null_free :: "json \<Rightarrow> bool" where
  "null_free = json_all (\<lambda>v. v \<noteq> JNull)"

text \<open>No NaN anywhere in the value (\<^verbatim>\<open>json.load\<close> accepts the literal \<open>NaN\<close>).\<close>

definition nan_free :: "json \<Rightarrow> bool" where
  "nan_free = json_all (\<lambda>v. v \<noteq> JFloat NaN)"

text \<open>No dict anywhere in the value has one of the reserved keys.\<close>

definition no_reserved_keys :: "json \<Rightarrow> bool" where
  "no_reserved_keys = json_all (\<lambda>v. \<not> is_marker v)"

text \<open>\<^verbatim>\<open>"{0}".format(i)\<close> for an index \<open>i\<close>: its decimal digits.\<close>

definition digit_char :: "nat \<Rightarrow> char" where
  "digit_char d = char_of (48 + d)"

fun str_nat :: "nat \<Rightarrow> string" where
  "str_nat n = (if n < 10 then [digit_char n] else str_nat (n div 10) @ [digit_char (n mod 10)])"

declare str_nat.simps [simp del]

text \<open>\<^verbatim>\<open>"List[{0}]".format(i)\<close>\<close>

definition list_seg :: "nat \<Rightarrow> string" where
  "list_seg i = ''List['' @ str_nat i @ '']''"

subsection \<open>\<open>list_differences\<close>\<close>

text \<open>
  The source prints one line for each marker it reaches:
  \<^verbatim>\<open>":".join(key_stack) + "\t{0}\t{1}".format(diff.get(B_SIDE), diff.get(A_SIDE))\<close>.
  The model returns the rows in the order they are printed, each row being the key stack
  at that moment, the \<open>B_SIDE\<close> value and the \<open>A_SIDE\<close> value (\<open>None\<close> for a side that is
  not there). The key stack is passed down extended instead of pushed and popped.
\<close>

type_synonym row = "string list \<times> json \<times> json"

function list_differences :: "json \<Rightarrow> string list \<Rightarrow> row list" where
  "list_differences diff key_stack =
    (case diff of
       JDict m \<Rightarrow>
         if B_SIDE |\<in>| fmdom m \<or> A_SIDE |\<in>| fmdom m
         then [(key_stack, dget m B_SIDE, dget m A_SIDE)]
         else concat (map (\<lambda>key. list_differences (dget m key) (key_stack @ [key]))
                          (dict_keys m))
     | JList xs \<Rightarrow>
         concat (map (\<lambda>(i, v). list_differences v (key_stack @ [list_seg i]))
                     (enumerate 0 xs))
     | _ \<Rightarrow> [])"
  by pat_completeness auto
termination
  apply (relation "measure (\<lambda>(d, ks). size d)")
    apply simp
  subgoal for d ks xs p i v
  proof -
    assume "p \<in> set (enumerate 0 xs)" and "(i, v) = p"
    then have "v \<in> set xs"
      by (auto simp: enumerate_eq_zip dest: set_zip_rightD)
    moreover assume "d = JList xs"
    ultimately show ?thesis
      by (auto simp: less_Suc_eq_le size_list_estimation')
  qed
  subgoal for d ks m key
    using size_dget[of m key] by (auto simp del: size_fmap_def)
  done

declare list_differences.simps [simp del]

text \<open>\<^verbatim>\<open>":".join(key_stack)\<close>, the breadcrumb of a printed row.\<close>

fun join_colon :: "string list \<Rightarrow> string" where
  "join_colon [] = []"
| "join_colon [s] = s"
| "join_colon (s # t # ss) = s @ '':'' @ join_colon (t # ss)"

text \<open>
  The value reached from \<open>d\<close> along a path of key-stack segments: a key of a dict, or
  \<open>List[i]\<close> for the position \<open>i\<close> of a list. This is the notion of path that the rows
  of \<open>list_differences\<close> are compared with.
\<close>

fun node_at :: "json \<Rightarrow> string list \<Rightarrow> json option" where
  "node_at d [] = Some d"
| "node_at (JDict m) (seg # path) =
     (case fmlookup m seg of None \<Rightarrow> None | Some v \<Rightarrow> node_at v path)"
| "node_at (JList xs) (seg # path) =
     (case find (\<lambda>(i, v). list_seg i = seg) (enumerate 0 xs) of
        None \<Rightarrow> None
      | Some (i, v) \<Rightarrow> node_at v path)"
| "node_at _ (seg # path) = None"

definition marker_at :: "json \<Rightarrow> string list \<Rightarrow> bool" where
  "marker_at d path = (case node_at d path of None \<Rightarrow> False | Some v \<Rightarrow> is_marker v)"

definition row_paths :: "json \<Rightarrow> string list list" where
  "row_paths d = map fst (list_differences d [])"


text \<open>
  The shape of what \<open>difference\<close> returns for two values without reserved keys: a
  marker whose sides are such values, a dict or a list of results, or a leaf.
\<close>

inductive diff_tree :: "json \<Rightarrow> bool" where
  marker: "is_marker (JDict m) \<Longrightarrow> (\<And>v. v \<in> fmran' m \<Longrightarrow> no_reserved_keys v) \<Longrightarrow> diff_tree (JDict m)"
| dict: "\<not> is_marker (JDict m) \<Longrightarrow> (\<And>v. v \<in> fmran' m \<Longrightarrow> diff_tree v) \<Longrightarrow> diff_tree (JDict m)"
| list: "(\<And>v. v \<in> set xs \<Longrightarrow> diff_tree v) \<Longrightarrow> diff_tree (JList xs)"
| leaf: "py_type x \<notin> {TList, TDict} \<Longrightarrow> diff_tree x"

section \<open>skmeans.py: iterative spherical k-means\<close>

subsection \<open>Arrays, errors and the library functions\<close>

text \<open>
  The arrays hold float64 numbers; the model computes with real numbers. It follows the
  program in what is stored where, in the order of the random draws, in the counters and
  in the errors. It does not follow float64 in the value of a quotient or of a norm: the
  program rounds, the square of a large entry overflows and that of a small one
  underflows, and the scikit-learn of today leaves a row unscaled when its norm is below
  ten machine epsilons, where the model divides exactly and leaves only a zero row
  unscaled. No statement below about the value of a norm is a statement about the
  program for such rows. An exception of numpy or scikit-learn is a value of \<open>error\<close>.
\<close>

datatype error = ValueError | IndexError

type_synonym vec = "real list"

text \<open>
  \<^verbatim>\<open>a[i]\<close> on an axis of length \<open>n\<close>: a negative index counts from the end, an index
  outside \<open>-n \<le> i < n\<close> raises IndexError.
\<close>

definition py_index :: "int \<Rightarrow> nat \<Rightarrow> error + nat" where
  "py_index i n =
    (if 0 \<le> i \<and> i < int n then Inr (nat i)
     else if - int n \<le> i \<and> i < 0 then Inr (nat (int n + i))
     else Inl IndexError)"

text \<open>\<^verbatim>\<open>a[:n]\<close>: the first \<open>n\<close> rows, all but the last \<open>-n\<close> rows for a negative \<open>n\<close>.\<close>

definition slice_to :: "int \<Rightarrow> 'a list \<Rightarrow> 'a list" where
  "slice_to n xs = (if 0 \<le> n then take (nat n) xs else take (length xs - nat (- n)) xs)"

definition l2_norm :: "vec \<Rightarrow> real" where
  "l2_norm v = sqrt (\<Sum>x\<leftarrow>v. x * x)"

text \<open>
  \<^verbatim>\<open>sklearn.preprocessing.normalize\<close> on a matrix of one row, in exact arithmetic: the
  row divided by its Euclidean norm, a zero norm being replaced by 1, so that a zero row
  stays as it is. A row without any feature is rejected with ValueError.
\<close>

definition normalized :: "vec \<Rightarrow> vec" where
  "normalized v = (let n = l2_norm v; n' = (if n = 0 then 1 else n) in map (\<lambda>x. x / n') v)"

definition normalize_l2 :: "vec \<Rightarrow> error + vec" where
  "normalize_l2 v = (if v = [] then Inl ValueError else Inr (normalized v))"

text \<open>The dot product of two rows.\<close>

definition dot :: "vec \<Rightarrow> vec \<Rightarrow> real" where
  "dot u v = (\<Sum>(x, y)\<leftarrow>zip u v. x * y)"

text \<open>
  \<^verbatim>\<open>argmax\<close> along a row: the first position of the greatest entry. numpy raises
  ValueError on an empty row; the caller below tests for it.
\<close>

fun argmax :: "real list \<Rightarrow> nat" where
  "argmax [] = 0"
| "argmax [x] = 0"
| "argmax (x # y # ys) = (let j = argmax (y # ys) in if (y # ys) ! j \<le> x then 0 else Suc j)"

subsection \<open>The clusterer\<close>

text \<open>
  The fields of \<open>IterativeSphericalKMeans\<close>. \<open>randn\<close> and \<open>drawn\<close> are the state of
  \<^verbatim>\<open>np.random\<close>: the sequence of standard normal samples it is going to return, and how
  many of them have been taken.
\<close>

record kmeans =
  k :: int
  num_records :: nat
  next_to_replace :: nat
  num_features :: nat
  max_records :: nat
  max_k :: int
  records_arr :: "vec list"
  medoids_arr :: "vec list"
  classes_arr :: "nat list"
  randn :: "nat \<Rightarrow> real"
  drawn :: nat

definition classes :: "kmeans \<Rightarrow> nat list" where
  "classes s = take (num_records s) (classes_arr s)"

definition records :: "kmeans \<Rightarrow> vec list" where
  "records s = take (num_records s) (records_arr s)"

definition medoids :: "kmeans \<Rightarrow> vec list" where
  "medoids s = slice_to (k s) (medoids_arr s)"

text \<open>
  \<^verbatim>\<open>normalize(np.abs(np.random.randn(self.num_features).reshape(1, -1)))\<close>: the next
  \<open>num_features\<close> samples, their absolute values, normalised.
\<close>

definition random_angle :: "kmeans \<Rightarrow> error + (vec \<times> kmeans)" where
  "random_angle s =
    (let sample = map (randn s) [drawn s ..< drawn s + num_features s];
         s' = s\<lparr>drawn := drawn s + num_features s\<rparr>
     in case normalize_l2 (map abs sample) of
          Inl e \<Rightarrow> Inl e
        | Inr v \<Rightarrow> Inr (v, s'))"

text \<open>
  \<^verbatim>\<open>for medoid in self.medoids(): medoid[...] = self._random_angle()\<close>, over the
  positions of the active rows.
\<close>

fun randomize_rows :: "nat list \<Rightarrow> kmeans \<Rightarrow> error + kmeans" where
  "randomize_rows [] s = Inr s"
| "randomize_rows (i # is) s =
    (case random_angle s of
       Inl e \<Rightarrow> Inl e
     | Inr (v, s') \<Rightarrow> randomize_rows is (s'\<lparr>medoids_arr := (medoids_arr s')[i := v]\<rparr>))"

text \<open>
  \<open>__init__\<close>. numpy rejects a negative dimension with ValueError; \<open>num_features\<close> and
  \<open>max_records\<close> are natural numbers here, \<open>max_k\<close> is tested. The rows of \<^verbatim>\<open>np.empty\<close>
  are unspecified in the program and never read before \<open>add_record\<close> has written them;
  they are zero rows here.
\<close>

definition init :: "(nat \<Rightarrow> real) \<Rightarrow> int \<Rightarrow> nat \<Rightarrow> int \<Rightarrow> nat \<Rightarrow> error + kmeans" where
  "init g initial_k nf maxk maxr =
    (let k0 = (if initial_k > maxk then maxk else if initial_k < 1 then 1 else initial_k)
     in if maxk < 0 then Inl ValueError
        else
          let s = \<lparr>k = k0, num_records = 0, next_to_replace = 0, num_features = nf,
                   max_records = maxr, max_k = maxk,
                   records_arr = replicate maxr (replicate nf 0),
                   medoids_arr = replicate (nat maxk) (replicate nf 0),
                   classes_arr = replicate maxr 0,
                   randn = g, drawn = 0\<rparr>
          in randomize_rows [0 ..< length (medoids s)] s)"

text \<open>
  The sum over the rows of \<^verbatim>\<open>(classes == i).reshape(-1, 1) * records\<close>: each record
  times 1 or 0, added up from a zero row.
\<close>

definition masked_sum :: "nat \<Rightarrow> nat list \<Rightarrow> vec list \<Rightarrow> nat \<Rightarrow> vec" where
  "masked_sum i cls recs nf =
    foldl (\<lambda>acc row. map (\<lambda>(x, y). x + y) (zip acc row)) (replicate nf 0)
      (map (\<lambda>(c, r). map (\<lambda>x. (if c = i then 1 else 0) * x) r) (zip cls recs))"

text \<open>The \<open>for\<close> statement of \<open>iterate\<close> that updates the active medoids.\<close>

fun update_medoids :: "nat list \<Rightarrow> kmeans \<Rightarrow> error + kmeans" where
  "update_medoids [] s = Inr s"
| "update_medoids (i # is) s =
    (case normalize_l2 (masked_sum i (classes s) (records s) (num_features s)) of
       Inl e \<Rightarrow> Inl e
     | Inr m \<Rightarrow>
         if list_all (\<lambda>x. x = 0) m
         then (case random_angle s of
                 Inl e \<Rightarrow> Inl e
               | Inr (v, s') \<Rightarrow> update_medoids is (s'\<lparr>medoids_arr := (medoids_arr s')[i := v]\<rparr>))
         else update_medoids is (s\<lparr>medoids_arr := (medoids_arr s)[i := m]\<rparr>))"

text \<open>
  \<open>iterate\<close>: every active record gets the position of the medoid with the greatest dot
  product, then the medoids are updated. \<open>argmax\<close> over no medoid at all raises ValueError.
  The arrays of records and of classes both have \<open>max_records\<close> rows and \<open>num_records\<close>
  never exceeds it, so the two slices have as many rows as there are classes assigned.
\<close>

definition iterate :: "kmeans \<Rightarrow> error + kmeans" where
  "iterate s =
    (if medoids s = [] then Inl ValueError
     else
       let new_classes = map (\<lambda>r. argmax (map (dot r) (medoids s))) (records s);
           s1 = s\<lparr>classes_arr := new_classes @ drop (num_records s) (classes_arr s)\<rparr>
       in update_medoids [0 ..< length (medoids s1)] s1)"

text \<open>The two \<open>while\<close> statements of \<open>set_k\<close>.\<close>

function grow_k :: "int \<Rightarrow> kmeans \<Rightarrow> error + kmeans" where
  "grow_k new_k s =
    (if new_k > k s
     then (case random_angle s of
             Inl e \<Rightarrow> Inl e
           | Inr (v, s') \<Rightarrow>
               (case py_index (k s') (length (medoids_arr s')) of
                  Inl e \<Rightarrow> Inl e
                | Inr i \<Rightarrow>
                    grow_k new_k (s'\<lparr>medoids_arr := (medoids_arr s')[i := v], k := k s' + 1\<rparr>)))
     else Inr s)"
  by pat_completeness auto
termination
  by (relation "measure (\<lambda>(new_k, s). nat (new_k - k s))")
     (auto simp: random_angle_def Let_def split: sum.splits)

declare grow_k.simps [simp del]

function shrink_k :: "int \<Rightarrow> kmeans \<Rightarrow> kmeans" where
  "shrink_k new_k s = (if new_k < k s then shrink_k new_k (s\<lparr>k := k s - 1\<rparr>) else s)"
  by pat_completeness auto
termination
  by (relation "measure (\<lambda>(new_k, s). nat (k s - new_k))") auto

declare shrink_k.simps [simp del]

definition set_k :: "int \<Rightarrow> kmeans \<Rightarrow> error + kmeans" where
  "set_k new_k s =
    (let new_k = (if new_k > max_k s then max_k s else if new_k < 1 then 1 else new_k)
     in case grow_k new_k s of
          Inl e \<Rightarrow> Inl e
        | Inr s' \<Rightarrow> Inr (shrink_k new_k s'))"

definition shuffle :: "kmeans \<Rightarrow> error + kmeans" where
  "shuffle s = randomize_rows [0 ..< length (medoids s)] s"

text \<open>
  \<^verbatim>\<open>self._records[self.next_to_replace] = nrecord\<close>: the position must exist, and the
  row of \<open>nrecord\<close> must have \<open>num_features\<close> entries, or one entry, which numpy repeats.
\<close>

definition assign_row :: "vec list \<Rightarrow> nat \<Rightarrow> vec \<Rightarrow> nat \<Rightarrow> error + vec list" where
  "assign_row arr i row nf =
    (if length arr \<le> i then Inl IndexError
     else if length row = nf then Inr (arr[i := row])
     else if length row = 1 then Inr (arr[i := replicate nf (hd row)])
     else Inl ValueError)"

definition add_record :: "vec \<Rightarrow> kmeans \<Rightarrow> error + kmeans" where
  "add_record record s =
    (case normalize_l2 record of
       Inl e \<Rightarrow> Inl e
     | Inr nrecord \<Rightarrow>
         (case assign_row (records_arr s) (next_to_replace s) nrecord (num_features s) of
            Inl e \<Rightarrow> Inl e
          | Inr arr \<Rightarrow>
              let s1 = s\<lparr>records_arr := arr, next_to_replace := next_to_replace s + 1\<rparr>;
                  s2 = (if next_to_replace s1 \<ge> max_records s1
                        then s1\<lparr>next_to_replace := 0\<rparr> else s1);
                  s3 = (if num_records s2 < max_records s2
                        then s2\<lparr>num_records := num_records s2 + 1\<rparr> else s2)
              in Inr s3))"

fun add_records :: "vec list \<Rightarrow> kmeans \<Rightarrow> error + kmeans" where
  "add_records [] s = Inr s"
| "add_records (record # rest) s =
    (case add_record record s of Inl e \<Rightarrow> Inl e | Inr s' \<Rightarrow> add_records rest s')"


subsection \<open>Invariants of the clusterer\<close>

text \<open>
  The shapes that \<open>__init__\<close> fixes: the arrays have \<open>max_records\<close> and \<open>max_k\<close> rows
  of \<open>num_features\<close> entries, there is at least one feature (scikit-learn rejects a row
  without features), the count of records and the write cursor stay inside the buffer, and
  the classes of the positions that hold no record yet are still the zeros of \<open>__init__\<close>.
\<close>

definition shape_ok :: "kmeans \<Rightarrow> bool" where
  "shape_ok s \<longleftrightarrow>
     0 < num_features s \<and>
     length (records_arr s) = max_records s \<and>
     length (classes_arr s) = max_records s \<and>
     int (length (medoids_arr s)) = max_k s \<and>
     list_all (\<lambda>r. length r = num_features s) (records_arr s) \<and>
     list_all (\<lambda>m. length m = num_features s) (medoids_arr s) \<and>
     num_records s \<le> max_records s \<and>
     next_to_replace s < max (max_records s) 1 \<and>
     list_all (\<lambda>c. c = 0) (drop (num_records s) (classes_arr s))"

definition k_in_range :: "kmeans \<Rightarrow> bool" where
  "k_in_range s \<longleftrightarrow> 1 \<le> k s \<and> k s \<le> max_k s"

definition kmeans_inv :: "kmeans \<Rightarrow> bool" where
  "kmeans_inv s \<longleftrightarrow> shape_ok s \<and> k_in_range s"

text \<open>The value that \<open>__init__\<close> and \<open>set_k\<close> bring a requested \<open>k\<close> to.\<close>

definition clamp_k :: "int \<Rightarrow> int \<Rightarrow> int" where
  "clamp_k maxk n = (if n > maxk then maxk else if n < 1 then 1 else n)"

text \<open>Every active record has the position of an active medoid as its class.\<close>

definition classes_ok :: "kmeans \<Rightarrow> bool" where
  "classes_ok s \<longleftrightarrow> list_all (\<lambda>c. int c < k s) (classes s)"

text \<open>The squared Euclidean norm of a row.\<close>

definition sq_norm :: "vec \<Rightarrow> real" where
  "sq_norm v = (\<Sum>x\<leftarrow>v. x * x)"

text \<open>
  The \<open>j\<close>-th vector that \<open>_random_angle\<close> is going to return from the state \<open>s\<close> on:
  the samples \<open>drawn s + j * num_features s\<close> and following.
\<close>

definition fresh_angle :: "kmeans \<Rightarrow> nat \<Rightarrow> vec" where
  "fresh_angle s j =
     normalized (map abs (map (randn s)
       [drawn s + j * num_features s ..< drawn s + j * num_features s + num_features s]))"

text \<open>
  None of the sample vectors still to come is the zero vector. A normal sample is zero
  with probability zero.
\<close>

definition draws_nonzero :: "kmeans \<Rightarrow> bool" where
  "draws_nonzero s \<longleftrightarrow>
     (\<forall>j. \<exists>i<num_features s. randn s (drawn s + j * num_features s + i) \<noteq> 0)"

section \<open>Properties of \<open>difference\<close>\<close>

subsection \<open>The branches of \<open>difference\<close>, one equation each\<close>

lemma difference_b_None: "difference a JNull = JDict (fmap_of_list [(A_SIDE, a)])"
  by (subst difference.simps) simp

lemma difference_a_None:
  "b \<noteq> JNull \<Longrightarrow> difference JNull b = JDict (fmap_of_list [(B_SIDE, b)])"
  by (subst difference.simps) simp

lemma difference_types:
  "a \<noteq> JNull \<Longrightarrow> b \<noteq> JNull \<Longrightarrow> py_type a \<noteq> py_type b \<Longrightarrow>
   difference a b = JDict (fmap_of_list [(A_SIDE, a), (B_SIDE, b)])"
  by (subst difference.simps) simp

lemma difference_dicts:
  "difference (JDict a) (JDict b) =
   JDict (fmap_of_list (map (\<lambda>key. (key, difference (dget a key) (dget b key))) (key_union a b)))"
  by (subst difference.simps) simp

lemma difference_lists:
  "difference (JList a) (JList b) = JList (map (\<lambda>(x, y). difference x y) (zip_longest a b))"
  by (subst difference.simps) simp

lemma difference_leaves:
  "py_type a = py_type b \<Longrightarrow> py_type a \<notin> {NoneType, TList, TDict} \<Longrightarrow>
   difference a b =
     (if py_eq a b then a else JDict (fmap_of_list [(A_SIDE, a), (B_SIDE, b)]))"
  by (subst difference.simps) (cases a; cases b; simp)

subsection \<open>Keys and nested values\<close>

lemma set_dict_keys [simp]: "set (dict_keys m) = fset (fmdom m)"
  by (simp add: dict_keys_def)

lemma distinct_dict_keys [simp]: "distinct (dict_keys m)"
  by (simp add: dict_keys_def sorted_list_of_fset.rep_eq)

lemma set_key_union [simp]: "set (key_union a b) = fset (fmdom a) \<union> fset (fmdom b)"
  by (simp add: key_union_def)

lemma distinct_key_union [simp]: "distinct (key_union a b)"
  by (simp add: key_union_def sorted_list_of_fset.rep_eq)

lemma json_all_here: "json_all P x \<Longrightarrow> P x"
  by (subst (asm) json_all.simps) simp

lemma json_all_list: "json_all P (JList xs) \<Longrightarrow> v \<in> set xs \<Longrightarrow> json_all P v"
  by (subst (asm) json_all.simps) (simp add: list_all_iff)

lemma json_all_dict:
  assumes "json_all P (JDict m)" and "fmlookup m key = Some v"
  shows "json_all P v"
proof -
  from assms(2) have "key \<in> set (dict_keys m)"
    by (simp add: fmdomI)
  moreover from assms(1) have "\<forall>key\<in>set (dict_keys m). json_all P (dget m key)"
    by (subst (asm) json_all.simps) (simp add: list_all_iff)
  ultimately have "json_all P (dget m key)"
    by blast
  with assms(2) show ?thesis
    by (simp add: dget_def)
qed

lemma find_enumerate_in_set:
  "find (\<lambda>(i, v). Q i) (enumerate n xs) = Some (j, w) \<Longrightarrow> w \<in> set xs"
  by (auto simp: find_Some_iff enumerate_eq_zip dest: nth_mem)

lemma json_all_node_at:
  "json_all P d \<Longrightarrow> node_at d path = Some v \<Longrightarrow> json_all P v"
proof (induction d path rule: node_at.induct)
  case (2 m seg path)
  then show ?case
    by (auto split: option.splits dest: json_all_dict)
next
  case (3 xs seg path)
  then show ?case
    by (auto split: option.splits dest: json_all_list find_enumerate_in_set)
qed simp_all

lemma no_reserved_keys_no_marker:
  "no_reserved_keys d \<Longrightarrow> \<not> marker_at d path"
  unfolding no_reserved_keys_def marker_at_def
  by (auto split: option.splits dest: json_all_node_at json_all_here)

subsection \<open>A value compared with itself\<close>

lemma zip_longest_self: "zip_longest xs xs = map (\<lambda>x. (x, x)) xs"
  by (induction xs) auto

lemma fmap_of_list_tabulate:
  "fmap_of_list (map (\<lambda>key. (key, dget m key)) (dict_keys m)) = m"
proof (rule fmap_ext)
  fix key
  show "fmlookup (fmap_of_list (map (\<lambda>key. (key, dget m key)) (dict_keys m))) key = fmlookup m key"
    by (cases "fmlookup m key")
       (auto simp: fmlookup_of_list map_of_map_restrict restrict_map_def dget_def fmdom_notD
             intro: fmdomI)
qed

lemma float_eq_refl: "x \<noteq> NaN \<Longrightarrow> float_eq x x"
  by (cases x) auto

lemma difference_self:
  "json_all (\<lambda>v. v \<noteq> JNull) x \<Longrightarrow> json_all (\<lambda>v. v \<noteq> JFloat NaN) x \<Longrightarrow> difference x x = x"
proof (induction x)
  case (JList xs)
  have "\<And>v. v \<in> set xs \<Longrightarrow> difference v v = v"
    using JList.IH json_all_list[OF JList.prems(1)] json_all_list[OF JList.prems(2)] by blast
  then have "map (\<lambda>(x, y). difference x y) (zip_longest xs xs) = xs"
    unfolding zip_longest_self map_map by (simp add: map_idI)
  then show ?case
    by (simp add: difference_lists)
next
  case (JDict m)
  have "map (\<lambda>key. (key, difference (dget m key) (dget m key))) (key_union m m)
      = map (\<lambda>key. (key, dget m key)) (dict_keys m)"
  proof (rule map_cong)
    show "key_union m m = dict_keys m"
      by (simp add: key_union_def dict_keys_def)
  next
    fix key assume "key \<in> set (dict_keys m)"
    then obtain v where v: "fmlookup m key = Some v"
      by (auto simp: fmlookup_dom_iff)
    then have "dget m key = v"
      by (simp add: dget_def)
    moreover have "difference v v = v"
      using v JDict.IH[of v] json_all_dict[OF JDict.prems(1) v] json_all_dict[OF JDict.prems(2) v]
      by (auto simp: fmran'I)
    ultimately show "(key, difference (dget m key) (dget m key)) = (key, dget m key)"
      by simp
  qed
  then show ?case
    by (simp add: difference_dicts fmap_of_list_tabulate)
next
  case (JFloat f)
  then show ?case
    using json_all_here[OF JFloat(2)] by (simp add: difference_leaves float_eq_refl)
qed (auto simp: difference_leaves dest: json_all_here)

text \<open>
  Where a value compared with itself does come back unchanged: for every JSON value \<open>x\<close>
  that holds no \<open>null\<close> and no NaN, \<open>difference x x\<close> is \<open>x\<close>; when \<open>x\<close> has no reserved
  key either, no path of the result leads to a difference marker.
\<close>

lemma difference_reflexive:
  assumes "null_free x" and "nan_free x"
  shows "difference x x = x \<and>
         (no_reserved_keys x \<longrightarrow> (\<forall>path. \<not> marker_at (difference x x) path))"
proof -
  have "difference x x = x"
    using assms unfolding null_free_def nan_free_def by (rule difference_self)
  then show ?thesis
    by (simp add: no_reserved_keys_no_marker)
qed

lemma difference_reflexive_witness:
  "null_free (JDict (fmap_of_list [(''a'', JList [JInt 1, JStr ''s'', JFloat (Finite 2)]),
                                   (''b'', JBool True)])) \<and>
   nan_free (JDict (fmap_of_list [(''a'', JList [JInt 1, JStr ''s'', JFloat (Finite 2)]),
                                  (''b'', JBool True)])) \<and>
   no_reserved_keys (JDict (fmap_of_list [(''a'', JList [JInt 1, JStr ''s'', JFloat (Finite 2)]),
                                          (''b'', JBool True)])) \<and>
   difference (JDict (fmap_of_list [(''a'', JList [JInt 1, JStr ''s'', JFloat (Finite 2)]),
                                    (''b'', JBool True)]))
              (JDict (fmap_of_list [(''a'', JList [JInt 1, JStr ''s'', JFloat (Finite 2)]),
                                    (''b'', JBool True)]))
     = JDict (fmap_of_list [(''a'', JList [JInt 1, JStr ''s'', JFloat (Finite 2)]),
                            (''b'', JBool True)]) \<and>
   \<not> marker_at (difference (JDict (fmap_of_list [(''a'', JList [JInt 1, JStr ''s'', JFloat (Finite 2)]),
                                                 (''b'', JBool True)]))
                           (JDict (fmap_of_list [(''a'', JList [JInt 1, JStr ''s'', JFloat (Finite 2)]),
                                                 (''b'', JBool True)]))) [''a'', ''List[1]'']"
proof -
  let ?x = "JDict (fmap_of_list [(''a'', JList [JInt 1, JStr ''s'', JFloat (Finite 2)]),
                                 (''b'', JBool True)])"
  have h1: "null_free ?x"
    unfolding null_free_def by code_simp
  have h2: "nan_free ?x"
    unfolding nan_free_def by code_simp
  have h3: "no_reserved_keys ?x"
    unfolding no_reserved_keys_def by code_simp
  show ?thesis
    using difference_reflexive [OF h1 h2] h1 h2 h3 by blast
qed

text \<open>
  Claim C1: for every JSON value \<open>x\<close>, \<open>null\<close> included, \<open>difference x x\<close> is \<open>x\<close>, with no
  difference marker in it. The code fails it at \<open>null\<close>. Its first test is
  \<open>b_side is None\<close>, which holds of a \<open>null\<close> that is there as well as of a key or a
  position that is not, so \<open>null\<close> against \<open>null\<close> gives the marker \<open>{A_SIDE: None}\<close>,
  at the top and at every key or position where both values are \<open>null\<close>; the listing
  mode then prints a row for two values that are the same. The docstring of the module
  puts a marker at the points where the two files differ, and every other scalar compared
  with itself is returned untouched.
\<close>

theorem difference_null_against_null:
  "difference JNull JNull = JDict (fmap_of_list [(A_SIDE, JNull)]) \<and>
   difference JNull JNull \<noteq> JNull \<and>
   is_marker (difference JNull JNull) \<and>
   difference (JList [JInt 1, JNull]) (JList [JInt 1, JNull])
     = JList [JInt 1, JDict (fmap_of_list [(A_SIDE, JNull)])] \<and>
   difference (JDict (fmap_of_list [(''k'', JNull)])) (JDict (fmap_of_list [(''k'', JNull)]))
     = JDict (fmap_of_list [(''k'', JDict (fmap_of_list [(A_SIDE, JNull)]))]) \<and>
   list_differences (difference (JList [JInt 1, JNull]) (JList [JInt 1, JNull])) []
     = [([''List[1]''], JNull, JNull)]"
  by code_simp

text \<open>
  A NaN compared with itself gives a marker too: \<open>nan == nan\<close> is false in Python, and
  \<open>difference\<close> decides on \<open>==\<close>.
\<close>

lemma difference_nan_against_nan:
  "difference (JFloat NaN) (JFloat NaN)
     = JDict (fmap_of_list [(A_SIDE, JFloat NaN), (B_SIDE, JFloat NaN)])"
  by (simp add: difference_leaves)

text \<open>
  Claim C2, as the code has it. \<open>difference\<close> compares the classes of the two values, and
  \<open>int\<close> and \<open>float\<close> are two classes: an integer and a floating-point number give the
  marker with both sides whatever their values, as a number and a string do. Two integers,
  or two floating-point numbers, are compared by \<open>==\<close>: equal ones give the first unchanged.
\<close>

theorem difference_number_kinds:
  "difference (JInt i) (JFloat f) = JDict (fmap_of_list [(A_SIDE, JInt i), (B_SIDE, JFloat f)]) \<and>
   difference (JFloat f) (JInt i) = JDict (fmap_of_list [(A_SIDE, JFloat f), (B_SIDE, JInt i)]) \<and>
   difference (JInt i) (JStr t) = JDict (fmap_of_list [(A_SIDE, JInt i), (B_SIDE, JStr t)]) \<and>
   difference (JStr t) (JInt i) = JDict (fmap_of_list [(A_SIDE, JStr t), (B_SIDE, JInt i)]) \<and>
   difference (JFloat f) (JStr t) = JDict (fmap_of_list [(A_SIDE, JFloat f), (B_SIDE, JStr t)]) \<and>
   difference (JStr t) (JFloat f) = JDict (fmap_of_list [(A_SIDE, JStr t), (B_SIDE, JFloat f)]) \<and>
   difference (JInt i) (JInt j) =
     (if i = j then JInt i else JDict (fmap_of_list [(A_SIDE, JInt i), (B_SIDE, JInt j)])) \<and>
   difference (JFloat f) (JFloat g) =
     (if float_eq f g then JFloat f
      else JDict (fmap_of_list [(A_SIDE, JFloat f), (B_SIDE, JFloat g)])) \<and>
   difference (JInt 5) (JStr ''5'') = JDict (fmap_of_list [(A_SIDE, JInt 5), (B_SIDE, JStr ''5'')])"
  by (simp add: difference_types difference_leaves)

text \<open>
  Claim C2 as stated fails: the integer 5 and the floating-point number 5.0 are equal as
  numbers, and \<open>difference\<close> gives the marker with both sides, not the scalar.
\<close>

theorem difference_number_kinds_counterexample:
  "difference (JInt 5) (JFloat (Finite 5)) \<noteq> JInt 5 \<and>
   difference (JInt 5) (JFloat (Finite 5)) \<noteq> JFloat (Finite 5) \<and>
   difference (JInt 5) (JFloat (Finite 5))
     = JDict (fmap_of_list [(A_SIDE, JInt 5), (B_SIDE, JFloat (Finite 5))])"
  by (simp add: difference_types)

section \<open>The rows of \<open>list_differences\<close> and the markers of \<open>difference\<close>\<close>


lemma digit_char_inj: "a < 10 \<Longrightarrow> b < 10 \<Longrightarrow> digit_char a = digit_char b \<Longrightarrow> a = b"
proof -
  assume a: "a < 10" and b: "b < 10" and e: "digit_char a = digit_char b"
  from e have "of_char (char_of (48 + a) :: char) = (of_char (char_of (48 + b) :: char) :: nat)"
    by (simp add: digit_char_def)
  with a b show ?thesis by (simp add: of_char_of)
qed

lemma str_nat_not_Nil: "str_nat n \<noteq> []"
  by (subst str_nat.simps) simp

lemma str_nat_inj: "str_nat n = str_nat m \<Longrightarrow> n = m"
proof (induction n arbitrary: m rule: str_nat.induct)
  case (1 n)
  show ?case
  proof (cases "n < 10")
    case True
    with "1.prems" have one: "str_nat m = [digit_char n]"
      by (subst (asm) str_nat.simps) simp
    have "m < 10"
    proof (rule ccontr)
      assume "\<not> m < 10"
      with one have "str_nat (m div 10) @ [digit_char (m mod 10)] = [digit_char n]"
        by (subst (asm) str_nat.simps) simp
      then show False using str_nat_not_Nil[of "m div 10"] by simp
    qed
    with one have "digit_char m = digit_char n"
      by (subst (asm) str_nat.simps) simp
    with True \<open>m < 10\<close> show ?thesis by (auto dest: digit_char_inj)
  next
    case False
    with "1.prems" have two: "str_nat m = str_nat (n div 10) @ [digit_char (n mod 10)]"
      by (subst (asm) str_nat.simps) simp
    have m: "\<not> m < 10"
    proof
      assume "m < 10"
      with two have "[digit_char m] = str_nat (n div 10) @ [digit_char (n mod 10)]"
        by (subst (asm) str_nat.simps) simp
      then show False using str_nat_not_Nil[of "n div 10"] by simp
    qed
    with two have "str_nat (m div 10) @ [digit_char (m mod 10)] = str_nat (n div 10) @ [digit_char (n mod 10)]"
      by (subst (asm) str_nat.simps) simp
    then have "str_nat (n div 10) = str_nat (m div 10)" and d: "digit_char (m mod 10) = digit_char (n mod 10)"
      by simp_all
    then have "n div 10 = m div 10" using "1.IH"[OF False] by simp
    moreover from d have "m mod 10 = n mod 10" by (auto dest!: digit_char_inj[rotated 2])
    ultimately show ?thesis by (metis div_mult_mod_eq)
  qed
qed

lemma list_seg_inj [simp]: "list_seg i = list_seg j \<longleftrightarrow> i = j"
  by (auto simp: list_seg_def dest: str_nat_inj)

lemma marker_at_Nil [simp]: "marker_at d [] = is_marker d"
  by (simp add: marker_at_def)

lemma marker_at_dict_Cons:
  "marker_at (JDict m) (seg # path) =
     (case fmlookup m seg of None \<Rightarrow> False | Some v \<Rightarrow> marker_at v path)"
  by (simp add: marker_at_def split: option.splits)

lemma find_list_seg_Some:
  "i < length xs \<Longrightarrow> find (\<lambda>(j, v). list_seg j = list_seg (n + i)) (enumerate n xs) = Some (n + i, xs ! i)"
proof (induction xs arbitrary: n i)
  case Nil then show ?case by simp
next
  case (Cons x xs)
  show ?case
  proof (cases i)
    case 0 then show ?thesis by simp
  next
    case (Suc i')
    with Cons.prems have "i' < length xs" by simp
    from Cons.IH[OF this, of "Suc n"] Suc show ?thesis by simp
  qed
qed

lemma find_list_seg_None:
  "(\<And>i. i < length xs \<Longrightarrow> list_seg (n + i) \<noteq> seg) \<Longrightarrow>
   find (\<lambda>(j, v). list_seg j = seg) (enumerate n xs) = None"
proof -
  assume H: "\<And>i. i < length xs \<Longrightarrow> list_seg (n + i) \<noteq> seg"
  have "list_seg j \<noteq> seg" if "(j, v) \<in> set (enumerate n xs)" for j v
  proof -
    from that have "n \<le> j" and "j - n < length xs"
      by (auto simp: in_set_enumerate_eq)
    with H[of "j - n"] show ?thesis by simp
  qed
  then show ?thesis
    unfolding find_None_iff by blast
qed

lemma marker_at_list_Cons:
  "marker_at (JList xs) (seg # path) = (\<exists>i<length xs. seg = list_seg i \<and> marker_at (xs ! i) path)"
proof (cases "\<exists>i<length xs. seg = list_seg i")
  case True
  then obtain i where i: "i < length xs" "seg = list_seg i" by blast
  with find_list_seg_Some[of i xs 0] show ?thesis
    by (auto simp: marker_at_def)
next
  case False
  then have "find (\<lambda>(j, v). list_seg j = seg) (enumerate 0 xs) = None"
    by (intro find_list_seg_None) auto
  with False show ?thesis by (auto simp: marker_at_def)
qed

lemma marker_at_leaf:
  "py_type x \<notin> {TList, TDict} \<Longrightarrow> \<not> marker_at x path"
  by (cases x; cases path) (simp_all add: marker_at_def is_marker_def)

lemma sum_list_indicator:
  "distinct xs \<Longrightarrow> (\<And>x y. x \<in> set xs \<Longrightarrow> y \<in> set xs \<Longrightarrow> P x \<Longrightarrow> P y \<Longrightarrow> x = y) \<Longrightarrow>
   (\<Sum>x\<leftarrow>xs. if P x then 1 else 0) = (if \<exists>x\<in>set xs. P x then 1 else (0::nat))"
proof (induction xs)
  case Nil then show ?case by simp
next
  case (Cons a xs)
  have IH: "(\<Sum>x\<leftarrow>xs. if P x then 1 else 0) = (if \<exists>x\<in>set xs. P x then 1 else (0::nat))"
    using Cons by (intro Cons.IH) auto
  show ?case
  proof (cases "P a")
    case True
    have "\<not> (\<exists>x\<in>set xs. P x)"
    proof
      assume "\<exists>x\<in>set xs. P x"
      then obtain x where "x \<in> set xs" "P x" by blast
      with True Cons.prems(2)[of a x] have "a = x" by simp
      with \<open>x \<in> set xs\<close> Cons.prems(1) show False by simp
    qed
    with True IH show ?thesis by simp
  next
    case False
    with IH show ?thesis by simp
  qed
qed


lemma no_reserved_keys_JNull [simp]: "no_reserved_keys JNull"
  unfolding no_reserved_keys_def by (subst json_all.simps) (simp add: is_marker_def)

lemma no_reserved_keys_list: "no_reserved_keys (JList xs) \<Longrightarrow> v \<in> set xs \<Longrightarrow> no_reserved_keys v"
  unfolding no_reserved_keys_def by (rule json_all_list)

lemma no_reserved_keys_lookup:
  "no_reserved_keys (JDict m) \<Longrightarrow> fmlookup m key = Some v \<Longrightarrow> no_reserved_keys v"
  unfolding no_reserved_keys_def by (rule json_all_dict)

lemma no_reserved_keys_dget: "no_reserved_keys (JDict m) \<Longrightarrow> no_reserved_keys (dget m key)"
  by (cases "fmlookup m key") (auto simp: dget_def dest: no_reserved_keys_lookup)

lemma no_reserved_keys_dom:
  "no_reserved_keys (JDict m) \<Longrightarrow> A_SIDE |\<notin>| fmdom m \<and> B_SIDE |\<notin>| fmdom m"
  unfolding no_reserved_keys_def by (auto dest!: json_all_here simp: is_marker_def)

lemma set_zip_longest:
  "(x, y) \<in> set (zip_longest xs ys) \<Longrightarrow> (x = JNull \<or> x \<in> set xs) \<and> (y = JNull \<or> y \<in> set ys)"
  by (induction xs ys rule: zip_longest.induct) auto

lemma diff_tree_marker1:
  "key = A_SIDE \<or> key = B_SIDE \<Longrightarrow> no_reserved_keys a \<Longrightarrow> diff_tree (JDict (fmap_of_list [(key, a)]))"
  by (rule diff_tree.marker) (auto simp: is_marker_def fmlookup_ran'_iff fmlookup_of_list split: if_splits)

lemma diff_tree_marker2:
  "no_reserved_keys a \<Longrightarrow> no_reserved_keys b \<Longrightarrow>
   diff_tree (JDict (fmap_of_list [(A_SIDE, a), (B_SIDE, b)]))"
  by (rule diff_tree.marker) (auto simp: is_marker_def fmlookup_ran'_iff fmlookup_of_list split: if_splits)

lemma diff_tree_leaves:
  assumes "py_type a = py_type b" and "py_type a \<notin> {NoneType, TList, TDict}"
    and "no_reserved_keys a" and "no_reserved_keys b"
  shows "diff_tree (difference a b)"
proof (cases "py_eq a b")
  case True
  with assms(1,2) have "difference a b = a"
    by (simp add: difference_leaves)
  with assms(2) show ?thesis
    by (simp add: diff_tree.leaf)
next
  case False
  with assms(1,2) have "difference a b = JDict (fmap_of_list [(A_SIDE, a), (B_SIDE, b)])"
    by (simp add: difference_leaves)
  with assms(3,4) show ?thesis
    by (simp only: diff_tree_marker2)
qed

lemma diff_tree_difference:
  "no_reserved_keys a \<Longrightarrow> no_reserved_keys b \<Longrightarrow> diff_tree (difference a b)"
proof (induction a b rule: difference.induct)
  case (1 a b)
  show ?case
  proof (cases "b = JNull \<or> a = JNull \<or> py_type a \<noteq> py_type b")
    case True
    then consider "b = JNull" | "b \<noteq> JNull" "a = JNull"
      | "b \<noteq> JNull" "a \<noteq> JNull" "py_type a \<noteq> py_type b"
      by blast
    then show ?thesis
    proof cases
      case 1
      then show ?thesis
        unfolding 1 difference_b_None using "1.prems" by (intro diff_tree_marker1) auto
    next
      case 2
      then show ?thesis
        unfolding 2 difference_a_None[OF 2(1)] using "1.prems" by (intro diff_tree_marker1) auto
    next
      case 3
      then show ?thesis
        unfolding difference_types[OF 3(2) 3(1) 3(3)] using "1.prems" by (intro diff_tree_marker2)
    qed
  next
    case False
    then have nn: "b \<noteq> JNull" "a \<noteq> JNull" "\<not> py_type a \<noteq> py_type b" by auto
    show ?thesis
    proof (cases a)
      case (JList xs)
      with nn obtain ys where b: "b = JList ys" by (cases b) auto
      have "diff_tree (difference x y)" if "(x, y) \<in> set (zip_longest xs ys)" for x y
      proof -
        from set_zip_longest[OF that] "1.prems" JList b
        have "no_reserved_keys x" "no_reserved_keys y"
          by (auto dest: no_reserved_keys_list)
        then show ?thesis
          using "1.IH"(1)[OF nn refl JList b that refl] by simp
      qed
      then show ?thesis
        unfolding JList b difference_lists by (intro diff_tree.list) auto
    next
      case (JDict m)
      with nn obtain m' where b: "b = JDict m'" by (cases b) auto
      let ?r = "fmap_of_list (map (\<lambda>key. (key, difference (dget m key) (dget m' key))) (key_union m m'))"
      have dom: "fmdom ?r = fmdom m |\<union>| fmdom m'"
        by (auto simp: fmdom_of_list image_image key_union_def fset_of_list_map)
      have "A_SIDE |\<notin>| fmdom m |\<union>| fmdom m'" "B_SIDE |\<notin>| fmdom m |\<union>| fmdom m'"
        using "1.prems" unfolding JDict b by (auto dest: no_reserved_keys_dom)
      then have nm: "\<not> is_marker (JDict ?r)"
        unfolding dom[symmetric] by (simp add: is_marker_def del: fmdom_of_list)
      have "diff_tree v" if "v \<in> fmran' ?r" for v
      proof -
        from that obtain key where "fmlookup ?r key = Some v"
          by (auto simp: fmlookup_ran'_iff)
        then have key: "key \<in> set (key_union m m')" and v: "v = difference (dget m key) (dget m' key)"
          by (auto simp: fmlookup_of_list map_of_map_restrict restrict_map_def split: if_splits)
        show ?thesis
          unfolding v
          using "1.IH"(2)[OF nn refl JDict b key] "1.prems"[unfolded JDict b]
          by (auto intro: no_reserved_keys_dget)
      qed
      with nm show ?thesis
        unfolding JDict b difference_dicts by (intro diff_tree.dict) auto
    next
      case JNull with nn show ?thesis by simp
    qed (use nn "1.prems" in \<open>auto intro!: diff_tree_leaves\<close>)
  qed
qed


lemma list_differences_marker:
  "is_marker (JDict m) \<Longrightarrow> list_differences (JDict m) ks = [(ks, dget m B_SIDE, dget m A_SIDE)]"
  by (subst list_differences.simps) (simp add: is_marker_def)

lemma list_differences_dict:
  "\<not> is_marker (JDict m) \<Longrightarrow>
   list_differences (JDict m) ks =
     concat (map (\<lambda>key. list_differences (dget m key) (ks @ [key])) (dict_keys m))"
  by (subst list_differences.simps) (simp add: is_marker_def)

lemma enumerate_nth: "enumerate 0 xs = map (\<lambda>i. (i, xs ! i)) [0..<length xs]"
  by (rule nth_equalityI) (simp_all add: nth_enumerate_eq)

lemma list_differences_list:
  "list_differences (JList xs) ks =
     concat (map (\<lambda>i. list_differences (xs ! i) (ks @ [list_seg i])) [0..<length xs])"
  by (subst list_differences.simps) (simp add: enumerate_nth comp_def)

lemma list_differences_leaf:
  "py_type x \<notin> {TList, TDict} \<Longrightarrow> list_differences x ks = []"
  by (subst list_differences.simps) (cases x; simp)

lemma markers_not_nested:
  "diff_tree d \<Longrightarrow> marker_at d path \<Longrightarrow> rest \<noteq> [] \<Longrightarrow> \<not> marker_at d (path @ rest)"
proof (induction d arbitrary: path rule: diff_tree.induct)
  case (marker m)
  have below: "\<not> marker_at (JDict m) (seg # p)" for seg p
    using marker.hyps(2) 
    by (auto simp: marker_at_dict_Cons split: option.splits dest!: fmran'I no_reserved_keys_no_marker)
  show ?case
  proof (cases path)
    case Nil
    with \<open>rest \<noteq> []\<close> below show ?thesis by (cases rest) auto
  next
    case (Cons seg p)
    with below marker.prems(1) show ?thesis by simp
  qed
next
  case (dict m)
  show ?case
  proof (cases path)
    case Nil
    with dict.prems dict.hyps(1) show ?thesis by simp
  next
    case (Cons seg p)
    with dict.prems(1) obtain v where v: "fmlookup m seg = Some v" "marker_at v p"
      by (auto simp: marker_at_dict_Cons split: option.splits)
    with dict.IH[OF fmran'I, OF v(1) v(2) dict.prems(2)] Cons show ?thesis
      by (simp add: marker_at_dict_Cons)
  qed
next
  case (list xs)
  show ?case
  proof (cases path)
    case Nil
    with list.prems show ?thesis by (simp add: is_marker_def)
  next
    case (Cons seg p)
    with list.prems(1) obtain i where i: "i < length xs" "seg = list_seg i" "marker_at (xs ! i) p"
      by (auto simp: marker_at_list_Cons)
    with list.IH[of "xs ! i" p, OF _ i(3) list.prems(2)] Cons show ?thesis
      by (auto simp: marker_at_list_Cons)
  qed
next
  case (leaf x)
  then show ?case by (simp add: marker_at_leaf)
qed

lemma count_rows:
  "diff_tree d \<Longrightarrow>
   count_list (map fst (list_differences d ks)) q =
     (if \<exists>path. q = ks @ path \<and> marker_at d path then 1 else 0)"
proof (induction d arbitrary: ks rule: diff_tree.induct)
  case (marker m)
  have "marker_at (JDict m) path \<longleftrightarrow> path = []" for path
  proof (cases path)
    case Nil with marker.hyps(1) show ?thesis by simp
  next
    case (Cons seg p)
    then show ?thesis
      using marker.hyps(2)
      by (auto simp: marker_at_dict_Cons split: option.splits dest!: fmran'I no_reserved_keys_no_marker)
  qed
  then show ?case
    by (auto simp: list_differences_marker[OF marker.hyps(1)])
next
  case (dict m)
  let ?P = "\<lambda>key. \<exists>path. q = (ks @ [key]) @ path \<and> marker_at (dget m key) path"
  have "count_list (map fst (list_differences (JDict m) ks)) q =
        (\<Sum>key\<leftarrow>dict_keys m. count_list (map fst (list_differences (dget m key) (ks @ [key]))) q)"
    by (simp add: list_differences_dict[OF dict.hyps(1)] map_concat count_list_concat comp_def)
  also have "\<dots> = (\<Sum>key\<leftarrow>dict_keys m. if ?P key then 1 else 0)"
  proof (rule arg_cong[where f=sum_list], rule map_cong[OF refl])
    fix key assume "key \<in> set (dict_keys m)"
    then obtain v where "fmlookup m key = Some v"
      by (auto simp: fmlookup_dom_iff)
    then have "dget m key \<in> fmran' m"
      by (simp add: dget_def fmran'I)
    then show "count_list (map fst (list_differences (dget m key) (ks @ [key]))) q =
               (if ?P key then 1 else 0)"
      by (rule dict.IH)
  qed
  also have "\<dots> = (if \<exists>key\<in>set (dict_keys m). ?P key then 1 else 0)"
    by (rule sum_list_indicator) auto
  also have "(\<exists>key\<in>set (dict_keys m). ?P key) \<longleftrightarrow> (\<exists>path. q = ks @ path \<and> marker_at (JDict m) path)"
  proof
    assume "\<exists>key\<in>set (dict_keys m). ?P key"
    then obtain key p where key: "key |\<in>| fmdom m" "q = ks @ key # p" "marker_at (dget m key) p"
      by auto
    then have "marker_at (JDict m) (key # p)"
      by (auto simp: marker_at_dict_Cons dget_def fmlookup_dom_iff)
    with key(2) show "\<exists>path. q = ks @ path \<and> marker_at (JDict m) path" by blast
  next
    assume "\<exists>path. q = ks @ path \<and> marker_at (JDict m) path"
    then obtain path where p: "q = ks @ path" "marker_at (JDict m) path" by blast
    with dict.hyps(1) obtain seg p' where path: "path = seg # p'"
      by (cases path) auto
    with p(2) obtain v where "fmlookup m seg = Some v" "marker_at v p'"
      by (auto simp: marker_at_dict_Cons split: option.splits)
    then have "seg \<in> set (dict_keys m)" "marker_at (dget m seg) p'"
      by (auto simp: dget_def fmdomI)
    with p(1) path show "\<exists>key\<in>set (dict_keys m). ?P key" by auto
  qed
  finally show ?case .
next
  case (list xs)
  let ?P = "\<lambda>i. \<exists>path. q = (ks @ [list_seg i]) @ path \<and> marker_at (xs ! i) path"
  have "count_list (map fst (list_differences (JList xs) ks)) q =
        (\<Sum>i\<leftarrow>[0..<length xs]. count_list (map fst (list_differences (xs ! i) (ks @ [list_seg i]))) q)"
    by (simp add: list_differences_list map_concat count_list_concat comp_def)
  also have "\<dots> = (\<Sum>i\<leftarrow>[0..<length xs]. if ?P i then 1 else 0)"
  proof (rule arg_cong[where f=sum_list], rule map_cong[OF refl])
    fix i assume "i \<in> set [0..<length xs]"
    then have "xs ! i \<in> set xs" by simp
    then show "count_list (map fst (list_differences (xs ! i) (ks @ [list_seg i]))) q =
               (if ?P i then 1 else 0)"
      by (rule list.IH)
  qed
  also have "\<dots> = (if \<exists>i\<in>set [0..<length xs]. ?P i then 1 else 0)"
    by (rule sum_list_indicator) auto
  also have "(\<exists>i\<in>set [0..<length xs]. ?P i) \<longleftrightarrow> (\<exists>path. q = ks @ path \<and> marker_at (JList xs) path)"
  proof
    assume "\<exists>i\<in>set [0..<length xs]. ?P i"
    then obtain i p where i: "i < length xs" "q = ks @ list_seg i # p" "marker_at (xs ! i) p"
      by auto
    then have "marker_at (JList xs) (list_seg i # p)"
      by (auto simp: marker_at_list_Cons)
    with i(2) show "\<exists>path. q = ks @ path \<and> marker_at (JList xs) path" by blast
  next
    assume "\<exists>path. q = ks @ path \<and> marker_at (JList xs) path"
    then obtain path where p: "q = ks @ path" "marker_at (JList xs) path" by blast
    then obtain seg p' where path: "path = seg # p'"
      by (cases path) (auto simp: is_marker_def)
    with p(2) obtain i where "i < length xs" "seg = list_seg i" "marker_at (xs ! i) p'"
      by (auto simp: marker_at_list_Cons)
    with p(1) path show "\<exists>i\<in>set [0..<length xs]. ?P i" by auto
  qed
  finally show ?case .
next
  case (leaf x)
  then show ?case by (simp add: list_differences_leaf marker_at_leaf)
qed

text \<open>
  Claim C4. For \<open>a\<close> and \<open>b\<close> without reserved keys, \<open>difference a b\<close> has a marker at a
  path exactly when \<open>list_differences\<close> emits exactly one row for that path, and no row is
  emitted for a path that goes on below a marker.
\<close>

theorem markers_are_rows:
  assumes "no_reserved_keys a" and "no_reserved_keys b"
  shows "(\<forall>path. marker_at (difference a b) path \<longleftrightarrow>
                 count_list (row_paths (difference a b)) path = 1) \<and>
         (\<forall>path rest. marker_at (difference a b) path \<and> rest \<noteq> [] \<longrightarrow>
                 path @ rest \<notin> set (row_paths (difference a b)))"
proof -
  have t: "diff_tree (difference a b)"
    using assms by (rule diff_tree_difference)
  have c: "count_list (row_paths (difference a b)) path =
           (if marker_at (difference a b) path then 1 else 0)" for path
    using count_rows[OF t, of "[]" path] by (simp add: row_paths_def)
  have "path @ rest \<notin> set (row_paths (difference a b))"
    if "marker_at (difference a b) path" "rest \<noteq> []" for path rest
  proof -
    from markers_not_nested[OF t that] c[of "path @ rest"]
    have "count_list (row_paths (difference a b)) (path @ rest) = 0" by simp
    then show ?thesis by (simp add: count_list_0_iff)
  qed
  with c show ?thesis by simp
qed

theorem markers_are_rows_witness:
  "no_reserved_keys (JDict (fmap_of_list [(''a'', JList [JInt 1, JInt 2])])) \<and>
   no_reserved_keys (JDict (fmap_of_list [(''a'', JList [JInt 1, JInt 3])])) \<and>
   marker_at (difference (JDict (fmap_of_list [(''a'', JList [JInt 1, JInt 2])]))
                         (JDict (fmap_of_list [(''a'', JList [JInt 1, JInt 3])])))
             [''a'', ''List[1]''] \<and>
   count_list (row_paths (difference (JDict (fmap_of_list [(''a'', JList [JInt 1, JInt 2])]))
                                     (JDict (fmap_of_list [(''a'', JList [JInt 1, JInt 3])]))))
              [''a'', ''List[1]''] = 1 \<and>
   [''a'', ''List[1]''] @ [''A_SIDE''] \<notin>
     set (row_paths (difference (JDict (fmap_of_list [(''a'', JList [JInt 1, JInt 2])]))
                                (JDict (fmap_of_list [(''a'', JList [JInt 1, JInt 3])]))))"
proof -
  let ?a = "JDict (fmap_of_list [(''a'', JList [JInt 1, JInt 2])])"
  let ?b = "JDict (fmap_of_list [(''a'', JList [JInt 1, JInt 3])])"
  have h1: "no_reserved_keys ?a"
    unfolding no_reserved_keys_def by code_simp
  have h2: "no_reserved_keys ?b"
    unfolding no_reserved_keys_def by code_simp
  have h3: "marker_at (difference ?a ?b) [''a'', ''List[1]'']"
    by code_simp
  have h4: "[''A_SIDE''] \<noteq> ([] :: string list)"
    by simp
  show ?thesis
    using markers_are_rows [OF h1 h2] h1 h2 h3 h4 by blast
qed

text \<open>The example of the listing mode: one row, for the path \<open>a:List[1]\<close>.\<close>

lemma list_differences_example:
  "list_differences (difference (JDict (fmap_of_list [(''a'', JList [JInt 1, JInt 2])]))
                                (JDict (fmap_of_list [(''a'', JList [JInt 1, JInt 3])]))) []
     = [([''a'', ''List[1]''], JInt 3, JInt 2)] \<and>
   join_colon [''a'', ''List[1]''] = ''a:List[1]''"
  by code_simp

section \<open>Properties of the clusterer\<close>

subsection \<open>Normalisation and random angles\<close>

lemma sq_norm_nonneg: "0 \<le> sq_norm v"
  unfolding sq_norm_def by (induction v) auto

lemma sq_norm_zero_iff: "sq_norm v = 0 \<longleftrightarrow> list_all (\<lambda>x. x = 0) v"
proof (induction v)
  case Nil then show ?case by (simp add: sq_norm_def)
next
  case (Cons a v)
  have "a * a + sq_norm v = 0 \<longleftrightarrow> a = 0 \<and> sq_norm v = 0"
    using sq_norm_nonneg[of v] by (smt (verit) mult_eq_0_iff zero_le_square)
  with Cons show ?case by (simp add: sq_norm_def)
qed

lemma l2_norm_sq: "l2_norm v = sqrt (sq_norm v)"
  by (simp add: l2_norm_def sq_norm_def)

lemma l2_norm_zero_iff: "l2_norm v = 0 \<longleftrightarrow> list_all (\<lambda>x. x = 0) v"
  by (simp add: l2_norm_sq sq_norm_zero_iff)

lemma length_normalized [simp]: "length (normalized v) = length v"
  by (simp add: normalized_def Let_def)

lemma sq_norm_scale: "sq_norm (map (\<lambda>x. x / c) v) = sq_norm v / (c * c)"
  unfolding sq_norm_def by (induction v) (auto simp: add_divide_distrib)

lemma sq_norm_normalized: "\<not> list_all (\<lambda>x. x = 0) v \<Longrightarrow> sq_norm (normalized v) = 1"
proof -
  assume nz: "\<not> list_all (\<lambda>x. x = 0) v"
  then have pos: "0 < sq_norm v"
    using sq_norm_nonneg[of v] sq_norm_zero_iff[of v] by linarith
  then have "l2_norm v \<noteq> 0" by (simp add: l2_norm_sq)
  then have "sq_norm (normalized v) = sq_norm v / (l2_norm v * l2_norm v)"
    by (simp add: normalized_def Let_def sq_norm_scale)
  also have "l2_norm v * l2_norm v = sq_norm v"
    using pos by (simp add: l2_norm_sq)
  finally show ?thesis using pos by simp
qed

lemma normalized_zero: "list_all (\<lambda>x. x = 0) v \<Longrightarrow> normalized v = v"
proof -
  assume z: "list_all (\<lambda>x. x = 0) v"
  then have "l2_norm v = 0" by (simp add: l2_norm_zero_iff)
  then have "normalized v = map (\<lambda>x. x / 1) v" by (simp add: normalized_def)
  then show ?thesis by simp
qed

lemma normalized_all_zero_iff:
  "list_all (\<lambda>x. x = 0) (normalized v) \<longleftrightarrow> list_all (\<lambda>x. x = 0) v"
  by (auto simp: normalized_def Let_def list_all_iff)

lemma normalized_nonneg:
  "\<forall>x\<in>set v. 0 \<le> x \<Longrightarrow> \<forall>x\<in>set (normalized v). 0 \<le> x"
proof -
  assume nn: "\<forall>x\<in>set v. 0 \<le> x"
  have "0 \<le> l2_norm v" by (simp add: l2_norm_sq sq_norm_nonneg)
  with nn show ?thesis
    by (auto simp: normalized_def Let_def)
qed

lemma length_fresh_angle [simp]: "length (fresh_angle s j) = num_features s"
  by (simp add: fresh_angle_def)

lemma fresh_angle_nonneg: "\<forall>x\<in>set (fresh_angle s j). 0 \<le> x"
  unfolding fresh_angle_def by (rule normalized_nonneg) auto

lemma fresh_angle_unit: "draws_nonzero s \<Longrightarrow> sq_norm (fresh_angle s j) = 1"
proof -
  assume "draws_nonzero s"
  then obtain i where i: "i < num_features s" "randn s (drawn s + j * num_features s + i) \<noteq> 0"
    unfolding draws_nonzero_def by blast
  let ?b = "[drawn s + j * num_features s ..< drawn s + j * num_features s + num_features s]"
  have "drawn s + j * num_features s + i \<in> set ?b"
    using i(1) by simp
  with i(2) have "\<not> list_all (\<lambda>x. x = 0) (map abs (map (randn s) ?b))"
    unfolding list_all_iff by (auto simp del: set_upt)
  then show ?thesis unfolding fresh_angle_def by (rule sq_norm_normalized)
qed

lemma random_angle_eq:
  "0 < num_features s \<Longrightarrow>
   random_angle s = Inr (fresh_angle s 0, s\<lparr>drawn := drawn s + num_features s\<rparr>)"
  by (simp add: random_angle_def normalize_l2_def fresh_angle_def Let_def)

lemma fresh_angle_shift:
  "fresh_angle (s\<lparr>drawn := drawn s + num_features s, medoids_arr := A\<rparr>) j = fresh_angle s (Suc j)"
  by (simp add: fresh_angle_def ac_simps)

lemma draws_nonzero_shift:
  "draws_nonzero s \<Longrightarrow> draws_nonzero (s\<lparr>drawn := drawn s + num_features s, medoids_arr := A\<rparr>)"
  unfolding draws_nonzero_def
proof (intro allI)
  fix j assume H: "\<forall>j. \<exists>i<num_features s. randn s (drawn s + j * num_features s + i) \<noteq> 0"
  from H[rule_format, of "Suc j"]
  show "\<exists>i<num_features (s\<lparr>drawn := drawn s + num_features s, medoids_arr := A\<rparr>).
          randn (s\<lparr>drawn := drawn s + num_features s, medoids_arr := A\<rparr>)
            (drawn (s\<lparr>drawn := drawn s + num_features s, medoids_arr := A\<rparr>)
             + j * num_features (s\<lparr>drawn := drawn s + num_features s, medoids_arr := A\<rparr>) + i) \<noteq> 0"
    by (simp add: ac_simps)
qed


lemma list_all_update:
  "list_all P xs \<Longrightarrow> P v \<Longrightarrow> list_all P (xs[i := v])"
  unfolding list_all_iff using set_update_subset_insert[of xs i v] by auto

lemma randomize_rows_result:
  "0 < num_features s \<Longrightarrow>
   \<exists>A. randomize_rows is s =
         Inr (s\<lparr>medoids_arr := A, drawn := drawn s + length is * num_features s\<rparr>) \<and>
       length A = length (medoids_arr s) \<and>
       (list_all (\<lambda>m. length m = num_features s) (medoids_arr s) \<longrightarrow>
          list_all (\<lambda>m. length m = num_features s) A) \<and>
       (\<forall>i<length A. i \<notin> set is \<longrightarrow> A ! i = medoids_arr s ! i) \<and>
       (distinct is \<longrightarrow> (\<forall>j<length is. is ! j < length A \<longrightarrow> A ! (is ! j) = fresh_angle s j))"
proof (induction "is" arbitrary: s)
  case Nil
  show ?case
    by (rule exI[where x="medoids_arr s"]) simp
next
  case (Cons i "is")
  let ?v = "fresh_angle s 0"
  let ?s2 = "s\<lparr>drawn := drawn s + num_features s, medoids_arr := (medoids_arr s)[i := ?v]\<rparr>"
  have step: "randomize_rows (i # is) s = randomize_rows is ?s2"
    using Cons.prems by (simp add: random_angle_eq)
  have "0 < num_features ?s2" using Cons.prems by simp
  from Cons.IH[OF this] obtain A where
    A: "randomize_rows is ?s2 = Inr (?s2\<lparr>medoids_arr := A, drawn := drawn ?s2 + length is * num_features ?s2\<rparr>)"
    and len: "length A = length (medoids_arr ?s2)"
    and rows: "list_all (\<lambda>m. length m = num_features ?s2) (medoids_arr ?s2) \<longrightarrow>
          list_all (\<lambda>m. length m = num_features ?s2) A"
    and keep: "\<forall>i<length A. i \<notin> set is \<longrightarrow> A ! i = medoids_arr ?s2 ! i"
    and new: "distinct is \<longrightarrow> (\<forall>j<length is. is ! j < length A \<longrightarrow> A ! (is ! j) = fresh_angle ?s2 j)"
    by blast
  have 1: "randomize_rows (i # is) s =
       Inr (s\<lparr>medoids_arr := A, drawn := drawn s + length (i # is) * num_features s\<rparr>)"
    unfolding step A by (simp add: algebra_simps)
  have 2: "length A = length (medoids_arr s)" using len by simp
  have 3: "list_all (\<lambda>m. length m = num_features s) (medoids_arr s) \<longrightarrow>
          list_all (\<lambda>m. length m = num_features s) A"
    using rows by (auto intro: list_all_update)
  have 4: "\<forall>i'<length A. i' \<notin> set (i # is) \<longrightarrow> A ! i' = medoids_arr s ! i'"
    using keep by auto
  have 5: "distinct (i # is) \<longrightarrow>
        (\<forall>j<length (i # is). (i # is) ! j < length A \<longrightarrow> A ! ((i # is) ! j) = fresh_angle s j)"
  proof (intro impI allI)
    fix j assume d: "distinct (i # is)" and j: "j < length (i # is)" and b: "(i # is) ! j < length A"
    show "A ! ((i # is) ! j) = fresh_angle s j"
    proof (cases j)
      case 0
      with d b keep len show ?thesis by simp
    next
      case (Suc j')
      with d j b new have "A ! (is ! j') = fresh_angle ?s2 j'" by simp
      with Suc show ?thesis by (simp add: fresh_angle_shift)
    qed
  qed
  from 1 2 3 4 5 show ?case by blast
qed

lemma length_masked_sum:
  "list_all (\<lambda>r. length r = nf) recs \<Longrightarrow> length cls = length recs \<Longrightarrow>
   length (masked_sum i cls recs nf) = nf"
proof -
  have gen: "length (foldl (\<lambda>acc row. map (\<lambda>(x, y). x + y) (zip acc row)) acc rows) = length acc"
    if "list_all (\<lambda>r. length r = length acc) rows" for acc :: "real list" and rows
    using that by (induction rows arbitrary: acc) auto
  assume a: "list_all (\<lambda>r. length r = nf) recs" "length cls = length recs"
  have "list_all (\<lambda>r. length r = length (replicate nf (0::real)))
          (map (\<lambda>(c, r). map (\<lambda>x. (if c = i then 1 else 0) * x) r) (zip cls recs))"
    using a by (auto simp: list_all_iff dest: set_zip_rightD)
  from gen[OF this] show ?thesis by (simp add: masked_sum_def)
qed


lemma records_medoids_upd [simp]:
  "records (s\<lparr>medoids_arr := A\<rparr>) = records s"
  "records (s\<lparr>drawn := d\<rparr>) = records s"
  "classes (s\<lparr>medoids_arr := A\<rparr>) = classes s"
  "classes (s\<lparr>drawn := d\<rparr>) = classes s"
  by (simp_all add: records_def classes_def)

lemma draws_nonzero_medoids_upd [simp]:
  "draws_nonzero (s\<lparr>medoids_arr := A\<rparr>) = draws_nonzero s"
  by (simp add: draws_nonzero_def)

lemma update_medoids_result:
  "0 < num_features s \<Longrightarrow>
   list_all (\<lambda>r. length r = num_features s) (records s) \<Longrightarrow>
   length (classes s) = length (records s) \<Longrightarrow>
   \<exists>A d. update_medoids is s = Inr (s\<lparr>medoids_arr := A, drawn := d\<rparr>) \<and>
       length A = length (medoids_arr s) \<and>
       (list_all (\<lambda>m. length m = num_features s) (medoids_arr s) \<longrightarrow>
          list_all (\<lambda>m. length m = num_features s) A) \<and>
       (\<forall>i<length A. i \<notin> set is \<longrightarrow> A ! i = medoids_arr s ! i) \<and>
       (draws_nonzero s \<longrightarrow> (\<forall>i\<in>set is. i < length A \<longrightarrow> sq_norm (A ! i) = 1))"
proof (induction "is" arbitrary: s)
  case Nil
  show ?case
    by (rule exI[where x="medoids_arr s"], rule exI[where x="drawn s"]) simp
next
  case (Cons i "is")
  let ?nf = "num_features s"
  let ?sum = "masked_sum i (classes s) (records s) ?nf"
  let ?m = "normalized ?sum"
  have len_sum: "length ?sum = ?nf"
    using Cons.prems by (intro length_masked_sum) auto
  then have ne: "?sum \<noteq> []" using Cons.prems(1) by auto
  define v where "v = (if list_all (\<lambda>x. x = 0) ?m then fresh_angle s 0 else ?m)"
  define d where "d = (if list_all (\<lambda>x. x = 0) ?m then drawn s + ?nf else drawn s)"
  let ?s2 = "s\<lparr>medoids_arr := (medoids_arr s)[i := v], drawn := d\<rparr>"
  have swap: "s\<lparr>drawn := a, medoids_arr := B\<rparr> = s\<lparr>medoids_arr := B, drawn := a\<rparr>" for a B
    by simp
  have step: "update_medoids (i # is) s = update_medoids is ?s2"
  proof (cases "list_all (\<lambda>x. x = 0) ?m")
    case True
    then show ?thesis
      using Cons.prems(1) ne by (simp add: normalize_l2_def random_angle_eq v_def d_def swap)
  next
    case False
    then show ?thesis
      using Cons.prems(1) ne by (simp add: normalize_l2_def v_def d_def)
  qed
  have lv: "length v = ?nf"
    using len_sum by (simp add: v_def)
  have unit: "sq_norm v = 1" if "draws_nonzero s"
  proof (cases "list_all (\<lambda>x. x = 0) ?m")
    case True
    with that show ?thesis by (simp add: v_def fresh_angle_unit)
  next
    case False
    then have "\<not> list_all (\<lambda>x. x = 0) ?sum" by (simp add: normalized_all_zero_iff)
    then have "sq_norm ?m = 1" by (rule sq_norm_normalized)
    with False show ?thesis by (simp add: v_def)
  qed
  have dn: "draws_nonzero ?s2" if "draws_nonzero s"
  proof (cases "list_all (\<lambda>x. x = 0) ?m")
    case True
    then have "?s2 = s\<lparr>drawn := drawn s + ?nf, medoids_arr := (medoids_arr s)[i := v]\<rparr>"
      by (simp add: d_def)
    with draws_nonzero_shift[OF that] show ?thesis by simp
  next
    case False
    then have "?s2 = s\<lparr>medoids_arr := (medoids_arr s)[i := v]\<rparr>"
      by (simp add: d_def)
    with that show ?thesis by simp
  qed
  have "0 < num_features ?s2" "list_all (\<lambda>r. length r = num_features ?s2) (records ?s2)"
    "length (classes ?s2) = length (records ?s2)"
    using Cons.prems by simp_all
  from Cons.IH[OF this] obtain A d' where
    A: "update_medoids is ?s2 = Inr (?s2\<lparr>medoids_arr := A, drawn := d'\<rparr>)"
    and len: "length A = length (medoids_arr ?s2)"
    and rows: "list_all (\<lambda>m. length m = num_features ?s2) (medoids_arr ?s2) \<longrightarrow>
          list_all (\<lambda>m. length m = num_features ?s2) A"
    and keep: "\<forall>i<length A. i \<notin> set is \<longrightarrow> A ! i = medoids_arr ?s2 ! i"
    and new: "draws_nonzero ?s2 \<longrightarrow> (\<forall>i\<in>set is. i < length A \<longrightarrow> sq_norm (A ! i) = 1)"
    by blast
  have 1: "update_medoids (i # is) s = Inr (s\<lparr>medoids_arr := A, drawn := d'\<rparr>)"
    unfolding step A by simp
  have 2: "length A = length (medoids_arr s)" using len by simp
  have 3: "list_all (\<lambda>m. length m = ?nf) (medoids_arr s) \<longrightarrow> list_all (\<lambda>m. length m = ?nf) A"
    using rows lv by (auto intro: list_all_update)
  have 4: "\<forall>i'<length A. i' \<notin> set (i # is) \<longrightarrow> A ! i' = medoids_arr s ! i'"
    using keep by auto
  have 5: "draws_nonzero s \<longrightarrow> (\<forall>i'\<in>set (i # is). i' < length A \<longrightarrow> sq_norm (A ! i') = 1)"
  proof (intro impI ballI)
    fix i' assume dz: "draws_nonzero s" and mem: "i' \<in> set (i # is)" and b: "i' < length A"
    show "sq_norm (A ! i') = 1"
    proof (cases "i' \<in> set is")
      case True
      with new dn[OF dz] b show ?thesis by blast
    next
      case False
      with mem have "i' = i" by simp
      with False keep b len have "A ! i' = v" by simp
      with unit[OF dz] show ?thesis by simp
    qed
  qed
  from 1 2 3 4 5 show ?case by blast
qed

lemma argmax_less: "xs \<noteq> [] \<Longrightarrow> argmax xs < length xs"
  by (induction xs rule: argmax.induct) (auto simp: Let_def)

lemma shrink_k_eq: "shrink_k new_k s = s\<lparr>k := min (k s) new_k\<rparr>"
proof (induction new_k s rule: shrink_k.induct)
  case (1 new_k s)
  show ?case
  proof (cases "new_k < k s")
    case True
    with "1.IH" show ?thesis
      by (subst shrink_k.simps) (simp add: min_def)
  next
    case False
    then show ?thesis
      by (subst shrink_k.simps) (simp add: min_def)
  qed
qed


lemma fresh_angle_later:
  "randn s' = randn s \<Longrightarrow> num_features s' = num_features s \<Longrightarrow>
   drawn s' = drawn s + num_features s \<Longrightarrow> fresh_angle s' j = fresh_angle s (Suc j)"
  by (simp add: fresh_angle_def ac_simps)

lemma grow_k_result:
  "0 < num_features s \<Longrightarrow> 0 \<le> k s \<Longrightarrow> new_k \<le> int (length (medoids_arr s)) \<Longrightarrow>
   \<exists>A. grow_k new_k s =
         Inr (s\<lparr>k := max (k s) new_k, medoids_arr := A,
                drawn := drawn s + nat (new_k - k s) * num_features s\<rparr>) \<and>
       length A = length (medoids_arr s) \<and>
       (list_all (\<lambda>m. length m = num_features s) (medoids_arr s) \<longrightarrow>
          list_all (\<lambda>m. length m = num_features s) A) \<and>
       (\<forall>i<length A. int i < k s \<or> new_k \<le> int i \<longrightarrow> A ! i = medoids_arr s ! i) \<and>
       (\<forall>i. k s \<le> int i \<and> int i < new_k \<longrightarrow> A ! i = fresh_angle s (i - nat (k s)))"
proof (induction n \<equiv> "nat (new_k - k s)" arbitrary: s)
  case 0
  then have le: "new_k \<le> k s" by simp
  then have "grow_k new_k s = Inr s"
    by (subst grow_k.simps) simp
  moreover have "s\<lparr>k := max (k s) new_k, medoids_arr := medoids_arr s,
                   drawn := drawn s + nat (new_k - k s) * num_features s\<rparr> = s"
    using le by (simp add: max_def)
  ultimately show ?case
    using le by (intro exI[where x="medoids_arr s"]) auto
next
  case (Suc n)
  then have lt: "k s < new_k" by simp
  let ?nf = "num_features s"
  let ?v = "fresh_angle s 0"
  let ?i = "nat (k s)"
  let ?s2 = "s\<lparr>drawn := drawn s + ?nf, medoids_arr := (medoids_arr s)[?i := ?v], k := k s + 1\<rparr>"
  have idx: "py_index (k s) (length (medoids_arr s)) = Inr ?i"
    using Suc.prems lt by (simp add: py_index_def)
  have step: "grow_k new_k s = grow_k new_k ?s2"
    using lt Suc.prems(1) idx by (subst grow_k.simps) (simp add: random_angle_eq)
  have n: "n = nat (new_k - k ?s2)" using Suc.hyps(2) by simp
  have pre: "0 < num_features ?s2" "0 \<le> k ?s2" "new_k \<le> int (length (medoids_arr ?s2))"
    using Suc.prems by simp_all
  from Suc.hyps(1)[OF n pre] obtain A where
    A: "grow_k new_k ?s2 = Inr (?s2\<lparr>k := max (k ?s2) new_k, medoids_arr := A,
                drawn := drawn ?s2 + nat (new_k - k ?s2) * num_features ?s2\<rparr>)"
    and len: "length A = length (medoids_arr ?s2)"
    and rows: "list_all (\<lambda>m. length m = num_features ?s2) (medoids_arr ?s2) \<longrightarrow>
          list_all (\<lambda>m. length m = num_features ?s2) A"
    and keep: "\<forall>i<length A. int i < k ?s2 \<or> new_k \<le> int i \<longrightarrow> A ! i = medoids_arr ?s2 ! i"
    and new: "\<forall>i. k ?s2 \<le> int i \<and> int i < new_k \<longrightarrow> A ! i = fresh_angle ?s2 (i - nat (k ?s2))"
    by blast
  have cnt: "nat (new_k - k s) = Suc (nat (new_k - (k s + 1)))"
    using lt by simp
  have 1: "grow_k new_k s = Inr (s\<lparr>k := max (k s) new_k, medoids_arr := A,
                drawn := drawn s + nat (new_k - k s) * ?nf\<rparr>)"
    unfolding step A using lt by (simp add: max_def cnt)
  have 2: "length A = length (medoids_arr s)" using len by simp
  have 3: "list_all (\<lambda>m. length m = ?nf) (medoids_arr s) \<longrightarrow> list_all (\<lambda>m. length m = ?nf) A"
    using rows by (auto intro: list_all_update)
  have 4: "\<forall>i<length A. int i < k s \<or> new_k \<le> int i \<longrightarrow> A ! i = medoids_arr s ! i"
  proof (intro allI impI)
    fix i assume b: "i < length A" and c: "int i < k s \<or> new_k \<le> int i"
    with lt have "int i < k ?s2 \<or> new_k \<le> int i" by auto
    with keep b have "A ! i = medoids_arr ?s2 ! i" by blast
    moreover have "i \<noteq> ?i"
    proof
      assume "i = ?i"
      with Suc.prems(2) have "int i = k s" by simp
      with c lt show False by simp
    qed
    ultimately show "A ! i = medoids_arr s ! i" by simp
  qed
  have 5: "\<forall>i. k s \<le> int i \<and> int i < new_k \<longrightarrow> A ! i = fresh_angle s (i - ?i)"
  proof (intro allI impI)
    fix i assume c: "k s \<le> int i \<and> int i < new_k"
    show "A ! i = fresh_angle s (i - ?i)"
    proof (cases "int i = k s")
      case True
      then have i: "i = ?i" by simp
      have "int i < int (length A)"
        using True Suc.prems(3) lt len by simp
      then have "i < length A" by simp
      with keep True have "A ! i = medoids_arr ?s2 ! i" by simp
      with i \<open>i < length A\<close> len show ?thesis by simp
    next
      case False
      with c have c2: "k ?s2 \<le> int i \<and> int i < new_k" by simp
      with new have "A ! i = fresh_angle ?s2 (i - nat (k ?s2))" by blast
      also have "\<dots> = fresh_angle s (Suc (i - nat (k ?s2)))"
        by (rule fresh_angle_later) simp_all
      also have "Suc (i - nat (k ?s2)) = i - ?i"
      proof -
        from c2 Suc.prems(2) have "nat (k ?s2) = Suc ?i" "Suc ?i \<le> i"
          by (simp_all add: nat_add_distrib) linarith
        then show ?thesis by simp
      qed
      finally show ?thesis .
    qed
  qed
  from 1 2 3 4 5 show ?case by blast
qed


lemma medoids_take: "0 \<le> k s \<Longrightarrow> medoids s = take (nat (k s)) (medoids_arr s)"
  by (simp add: medoids_def slice_to_def)

lemma inv_length_medoids: "kmeans_inv s \<Longrightarrow> length (medoids s) = nat (k s)"
  by (auto simp: kmeans_inv_def shape_ok_def k_in_range_def medoids_take)

lemma set_k_result:
  assumes "kmeans_inv s"
  shows "\<exists>A. set_k new_k s =
         Inr (s\<lparr>k := clamp_k (max_k s) new_k, medoids_arr := A,
                drawn := drawn s + nat (clamp_k (max_k s) new_k - k s) * num_features s\<rparr>) \<and>
       length A = length (medoids_arr s) \<and>
       list_all (\<lambda>m. length m = num_features s) A \<and>
       (\<forall>i<length A. int i < k s \<or> clamp_k (max_k s) new_k \<le> int i \<longrightarrow> A ! i = medoids_arr s ! i) \<and>
       (\<forall>i. k s \<le> int i \<and> int i < clamp_k (max_k s) new_k \<longrightarrow>
            A ! i = fresh_angle s (i - nat (k s)))"
proof -
  let ?c = "clamp_k (max_k s) new_k"
  from assms have pre: "0 < num_features s" "0 \<le> k s" "?c \<le> int (length (medoids_arr s))"
    and rows0: "list_all (\<lambda>m. length m = num_features s) (medoids_arr s)"
    by (auto simp: kmeans_inv_def shape_ok_def k_in_range_def clamp_k_def)
  from grow_k_result[OF pre] obtain A where
    A: "grow_k ?c s = Inr (s\<lparr>k := max (k s) ?c, medoids_arr := A,
                drawn := drawn s + nat (?c - k s) * num_features s\<rparr>)"
    and rest: "length A = length (medoids_arr s)"
      "list_all (\<lambda>m. length m = num_features s) (medoids_arr s) \<longrightarrow>
          list_all (\<lambda>m. length m = num_features s) A"
      "\<forall>i<length A. int i < k s \<or> ?c \<le> int i \<longrightarrow> A ! i = medoids_arr s ! i"
      "\<forall>i. k s \<le> int i \<and> int i < ?c \<longrightarrow> A ! i = fresh_angle s (i - nat (k s))"
    by blast
  have "set_k new_k s = Inr (s\<lparr>k := ?c, medoids_arr := A,
                drawn := drawn s + nat (?c - k s) * num_features s\<rparr>)"
    unfolding set_k_def clamp_k_def[symmetric] Let_def A
    by (simp add: shrink_k_eq)
  with rest rows0 show ?thesis by blast
qed

lemma iterate_result:
  assumes "kmeans_inv s"
  shows "\<exists>A d. iterate s =
         Inr (s\<lparr>classes_arr := map (\<lambda>r. argmax (map (dot r) (medoids s))) (records s)
                                  @ drop (num_records s) (classes_arr s),
                medoids_arr := A, drawn := d\<rparr>) \<and>
       length A = length (medoids_arr s) \<and>
       list_all (\<lambda>m. length m = num_features s) A \<and>
       (\<forall>i<length A. nat (k s) \<le> i \<longrightarrow> A ! i = medoids_arr s ! i) \<and>
       (draws_nonzero s \<longrightarrow> (\<forall>i<nat (k s). sq_norm (A ! i) = 1))"
proof -
  let ?C = "map (\<lambda>r. argmax (map (dot r) (medoids s))) (records s) @ drop (num_records s) (classes_arr s)"
  let ?s1 = "s\<lparr>classes_arr := ?C\<rparr>"
  from assms have sh: "shape_ok s" and kr: "1 \<le> k s" "k s \<le> max_k s"
    by (auto simp: kmeans_inv_def k_in_range_def)
  have lm: "length (medoids s) = nat (k s)"
    using assms by (rule inv_length_medoids)
  then have ne: "medoids s \<noteq> []" using kr by auto
  have m1: "medoids ?s1 = medoids s" by (simp add: medoids_def)
  have it: "iterate s = update_medoids [0..<nat (k s)] ?s1"
    using ne by (simp add: iterate_def Let_def m1 lm)
  have lr: "length (records s) = num_records s"
    using sh by (simp add: records_def shape_ok_def)
  have pre: "0 < num_features ?s1" "list_all (\<lambda>r. length r = num_features ?s1) (records ?s1)"
    "length (classes ?s1) = length (records ?s1)"
    using sh lr by (auto simp: shape_ok_def records_def classes_def list_all_iff dest: in_set_takeD)
  from update_medoids_result[OF pre, of "[0..<nat (k s)]"] obtain A d where
    A: "update_medoids [0..<nat (k s)] ?s1 = Inr (?s1\<lparr>medoids_arr := A, drawn := d\<rparr>)"
    and len: "length A = length (medoids_arr ?s1)"
    and rows: "list_all (\<lambda>m. length m = num_features ?s1) (medoids_arr ?s1) \<longrightarrow>
          list_all (\<lambda>m. length m = num_features ?s1) A"
    and keep: "\<forall>i<length A. i \<notin> set [0..<nat (k s)] \<longrightarrow> A ! i = medoids_arr ?s1 ! i"
    and new: "draws_nonzero ?s1 \<longrightarrow> (\<forall>i\<in>set [0..<nat (k s)]. i < length A \<longrightarrow> sq_norm (A ! i) = 1)"
    by blast
  have "k s \<le> int (length (medoids_arr s))"
    using sh kr by (simp add: shape_ok_def)
  then have bound: "nat (k s) \<le> length A"
    using len by simp
  have 1: "iterate s = Inr (s\<lparr>classes_arr := ?C, medoids_arr := A, drawn := d\<rparr>)"
    unfolding it A by simp
  have 2: "length A = length (medoids_arr s)" using len by simp
  have 3: "list_all (\<lambda>m. length m = num_features s) A"
    using rows sh by (simp add: shape_ok_def)
  have 4: "\<forall>i<length A. nat (k s) \<le> i \<longrightarrow> A ! i = medoids_arr s ! i"
    using keep by auto
  have 5: "draws_nonzero s \<longrightarrow> (\<forall>i<nat (k s). sq_norm (A ! i) = 1)"
    using new bound by (auto simp: draws_nonzero_def)
  from 1 2 3 4 5 show ?thesis by blast
qed

lemma shuffle_result:
  assumes "kmeans_inv s"
  shows "\<exists>A. shuffle s =
         Inr (s\<lparr>medoids_arr := A, drawn := drawn s + nat (k s) * num_features s\<rparr>) \<and>
       length A = length (medoids_arr s) \<and>
       list_all (\<lambda>m. length m = num_features s) A \<and>
       (\<forall>i<length A. nat (k s) \<le> i \<longrightarrow> A ! i = medoids_arr s ! i) \<and>
       (\<forall>i<nat (k s). A ! i = fresh_angle s i)"
proof -
  from assms have sh: "shape_ok s" and kr: "1 \<le> k s" "k s \<le> max_k s"
    by (auto simp: kmeans_inv_def k_in_range_def)
  have lm: "length (medoids s) = nat (k s)"
    using assms by (rule inv_length_medoids)
  have nf: "0 < num_features s" using sh by (simp add: shape_ok_def)
  from randomize_rows_result[OF nf, of "[0..<nat (k s)]"] obtain A where
    A: "randomize_rows [0..<nat (k s)] s =
         Inr (s\<lparr>medoids_arr := A, drawn := drawn s + length [0..<nat (k s)] * num_features s\<rparr>)"
    and len: "length A = length (medoids_arr s)"
    and rows: "list_all (\<lambda>m. length m = num_features s) (medoids_arr s) \<longrightarrow>
          list_all (\<lambda>m. length m = num_features s) A"
    and keep: "\<forall>i<length A. i \<notin> set [0..<nat (k s)] \<longrightarrow> A ! i = medoids_arr s ! i"
    and new: "distinct [0..<nat (k s)] \<longrightarrow>
        (\<forall>j<length [0..<nat (k s)]. [0..<nat (k s)] ! j < length A \<longrightarrow>
             A ! ([0..<nat (k s)] ! j) = fresh_angle s j)"
    by blast
  have "k s \<le> int (length (medoids_arr s))"
    using sh kr by (simp add: shape_ok_def)
  then have bound: "nat (k s) \<le> length A"
    using len by simp
  have 1: "shuffle s = Inr (s\<lparr>medoids_arr := A, drawn := drawn s + nat (k s) * num_features s\<rparr>)"
    using A by (simp add: shuffle_def lm)
  have 3: "list_all (\<lambda>m. length m = num_features s) A"
    using rows sh by (simp add: shape_ok_def)
  have 4: "\<forall>i<length A. nat (k s) \<le> i \<longrightarrow> A ! i = medoids_arr s ! i"
    using keep by auto
  have 5: "\<forall>i<nat (k s). A ! i = fresh_angle s i"
    using new bound by auto
  from 1 len 3 4 5 show ?thesis by blast
qed

lemma add_record_result:
  assumes "shape_ok s" and "length record = num_features s" and "0 < max_records s"
  shows "add_record record s =
         Inr (s\<lparr>records_arr := (records_arr s)[next_to_replace s := normalized record],
                next_to_replace := (next_to_replace s + 1) mod max_records s,
                num_records := min (num_records s + 1) (max_records s)\<rparr>)"
proof -
  from assms have ne: "record \<noteq> []" and nx: "next_to_replace s < max_records s"
    and len: "length (records_arr s) = max_records s" and nr: "num_records s \<le> max_records s"
    by (auto simp: shape_ok_def)
  have md: "Suc (next_to_replace s) mod max_records s =
            (if max_records s \<le> Suc (next_to_replace s) then 0 else Suc (next_to_replace s))"
  proof (cases "max_records s \<le> Suc (next_to_replace s)")
    case True
    with nx have "Suc (next_to_replace s) = max_records s" by simp
    with True show ?thesis by simp
  next
    case False
    then show ?thesis by simp
  qed
  show ?thesis
    using ne nx len nr assms(2)
    by (auto simp: add_record_def normalize_l2_def assign_row_def Let_def md min_def)
qed

subsection \<open>The invariant is kept\<close>

lemma inv_medoids_upd:
  "kmeans_inv s \<Longrightarrow> length A = length (medoids_arr s) \<Longrightarrow>
   list_all (\<lambda>m. length m = num_features s) A \<Longrightarrow> kmeans_inv (s\<lparr>medoids_arr := A, drawn := d\<rparr>)"
  by (simp add: kmeans_inv_def shape_ok_def k_in_range_def)

lemma inv_k_upd:
  "kmeans_inv s \<Longrightarrow> 1 \<le> c \<Longrightarrow> c \<le> max_k s \<Longrightarrow> kmeans_inv (s\<lparr>k := c\<rparr>)"
  by (simp add: kmeans_inv_def shape_ok_def k_in_range_def)

lemma clamp_k_range: "1 \<le> maxk \<Longrightarrow> 1 \<le> clamp_k maxk n \<and> clamp_k maxk n \<le> maxk"
  by (simp add: clamp_k_def)

lemma inv_set_k:
  assumes "kmeans_inv s"
  shows "\<exists>s'. set_k new_k s = Inr s' \<and> kmeans_inv s' \<and> k s' = clamp_k (max_k s) new_k \<and>
              max_k s' = max_k s"
proof -
  from assms have mk: "1 \<le> max_k s" by (simp add: kmeans_inv_def k_in_range_def)
  from set_k_result[OF assms, of new_k] obtain A where
    A: "set_k new_k s =
         Inr (s\<lparr>k := clamp_k (max_k s) new_k, medoids_arr := A,
                drawn := drawn s + nat (clamp_k (max_k s) new_k - k s) * num_features s\<rparr>)"
    and len: "length A = length (medoids_arr s)"
    and rows: "list_all (\<lambda>m. length m = num_features s) A"
    by blast
  have "kmeans_inv (s\<lparr>k := clamp_k (max_k s) new_k\<rparr>)"
    using assms clamp_k_range[OF mk, of new_k] by (intro inv_k_upd) auto
  from inv_medoids_upd[OF this, of A] len rows
  have "kmeans_inv (s\<lparr>k := clamp_k (max_k s) new_k, medoids_arr := A,
                drawn := drawn s + nat (clamp_k (max_k s) new_k - k s) * num_features s\<rparr>)"
    by simp
  with A show ?thesis by simp
qed

lemma inv_shuffle:
  assumes "kmeans_inv s"
  shows "\<exists>s'. shuffle s = Inr s' \<and> kmeans_inv s' \<and> k s' = k s \<and> max_k s' = max_k s \<and>
              classes_arr s' = classes_arr s \<and> num_records s' = num_records s"
proof -
  from shuffle_result[OF assms] obtain A where
    A: "shuffle s = Inr (s\<lparr>medoids_arr := A, drawn := drawn s + nat (k s) * num_features s\<rparr>)"
    and len: "length A = length (medoids_arr s)"
    and rows: "list_all (\<lambda>m. length m = num_features s) A"
    by blast
  from inv_medoids_upd[OF assms len rows] A show ?thesis by simp
qed

lemma inv_iterate:
  assumes "kmeans_inv s"
  shows "\<exists>s'. iterate s = Inr s' \<and> kmeans_inv s' \<and> k s' = k s \<and> max_k s' = max_k s \<and>
              num_records s' = num_records s \<and> classes_ok s'"
proof -
  let ?C = "map (\<lambda>r. argmax (map (dot r) (medoids s))) (records s) @ drop (num_records s) (classes_arr s)"
  from iterate_result[OF assms] obtain A d where
    A: "iterate s = Inr (s\<lparr>classes_arr := ?C, medoids_arr := A, drawn := d\<rparr>)"
    and len: "length A = length (medoids_arr s)"
    and rows: "list_all (\<lambda>m. length m = num_features s) A"
    by blast
  from assms have sh: "shape_ok s" by (simp add: kmeans_inv_def)
  have lr: "length (records s) = num_records s"
    using sh by (simp add: records_def shape_ok_def)
  have lm: "length (medoids s) = nat (k s)"
    using assms by (rule inv_length_medoids)
  have k1: "1 \<le> k s" using assms by (simp add: kmeans_inv_def k_in_range_def)
  have "kmeans_inv (s\<lparr>classes_arr := ?C\<rparr>)"
    using assms lr by (simp add: kmeans_inv_def shape_ok_def k_in_range_def)
  from inv_medoids_upd[OF this, of A d] len rows
  have i: "kmeans_inv (s\<lparr>classes_arr := ?C, medoids_arr := A, drawn := d\<rparr>)" by simp
  have "classes (s\<lparr>classes_arr := ?C, medoids_arr := A, drawn := d\<rparr>)
        = map (\<lambda>r. argmax (map (dot r) (medoids s))) (records s)"
    using lr by (simp add: classes_def)
  moreover have "int (argmax (map (dot r) (medoids s))) < k s" for r
  proof -
    have "map (dot r) (medoids s) \<noteq> []" using lm k1 by auto
    from argmax_less[OF this] lm show ?thesis by simp
  qed
  ultimately have "classes_ok (s\<lparr>classes_arr := ?C, medoids_arr := A, drawn := d\<rparr>)"
    by (simp add: classes_ok_def list_all_iff)
  with A i show ?thesis by simp
qed

lemma add_record_frame:
  "add_record record s = Inr s' \<Longrightarrow>
   k s' = k s \<and> max_k s' = max_k s \<and> classes_arr s' = classes_arr s \<and>
   medoids_arr s' = medoids_arr s \<and> num_features s' = num_features s \<and>
   max_records s' = max_records s \<and>
   num_records s' = (if num_records s < max_records s then num_records s + 1 else num_records s)"
  by (auto simp: add_record_def Let_def split: sum.splits if_splits)

lemma list_all_drop_Suc: "list_all P (drop n xs) \<Longrightarrow> list_all P (drop (Suc n) xs)"
  by (metis drop_drop list_all_iff in_set_dropD plus_1_eq_Suc)

lemma inv_add_record:
  assumes "kmeans_inv s" and "length record = num_features s" and "0 < max_records s"
  shows "\<exists>s'. add_record record s = Inr s' \<and> kmeans_inv s'"
proof -
  from assms have sh: "shape_ok s" by (simp add: kmeans_inv_def)
  note r = add_record_result[OF sh assms(2,3)]
  have tail: "list_all (\<lambda>c. c = 0) (drop (min (num_records s + 1) (max_records s)) (classes_arr s))"
  proof (cases "num_records s + 1 \<le> max_records s")
    case True
    then have "min (num_records s + 1) (max_records s) = Suc (num_records s)" by simp
    with sh show ?thesis by (simp add: shape_ok_def list_all_drop_Suc)
  next
    case False
    with sh show ?thesis by (simp add: shape_ok_def)
  qed
  have "kmeans_inv (s\<lparr>records_arr := (records_arr s)[next_to_replace s := normalized record],
                next_to_replace := (next_to_replace s + 1) mod max_records s,
                num_records := min (num_records s + 1) (max_records s)\<rparr>)"
    using assms tail
    by (auto simp: kmeans_inv_def shape_ok_def k_in_range_def intro: list_all_update)
  with r show ?thesis by simp
qed

lemma classes_ok_add_record:
  assumes "kmeans_inv s" and "classes_ok s" and "add_record record s = Inr s'"
  shows "classes_ok s'"
proof -
  note f = add_record_frame[OF assms(3)]
  from assms(1) have sh: "shape_ok s" and k1: "1 \<le> k s" by (auto simp: kmeans_inv_def k_in_range_def)
  show ?thesis
  proof (cases "num_records s < max_records s")
    case True
    then have n: "num_records s < length (classes_arr s)" using sh by (simp add: shape_ok_def)
    from sh have "list_all (\<lambda>c. c = 0) (drop (num_records s) (classes_arr s))"
      by (simp add: shape_ok_def)
    with n have z: "classes_arr s ! num_records s = 0"
      by (subst (asm) Cons_nth_drop_Suc[symmetric]) simp_all
    have "take (Suc (num_records s)) (classes_arr s) = take (num_records s) (classes_arr s) @ [0]"
      using n z by (simp add: take_Suc_conv_app_nth)
    with assms(2) k1 f True show ?thesis
      by (simp add: classes_ok_def classes_def)
  next
    case False
    with assms(2) f show ?thesis by (simp add: classes_ok_def classes_def)
  qed
qed

lemma init_is_shuffle:
  "0 \<le> maxk \<Longrightarrow>
   init g initial_k nf maxk maxr =
     shuffle \<lparr>k = clamp_k maxk initial_k, num_records = 0, next_to_replace = 0, num_features = nf,
              max_records = maxr, max_k = maxk,
              records_arr = replicate maxr (replicate nf 0),
              medoids_arr = replicate (nat maxk) (replicate nf 0),
              classes_arr = replicate maxr 0,
              randn = g, drawn = 0\<rparr>"
  by (simp add: init_def shuffle_def clamp_k_def Let_def)

lemma inv_init:
  assumes "1 \<le> maxk" and "0 < nf"
  shows "\<exists>s. init g initial_k nf maxk maxr = Inr s \<and> kmeans_inv s \<and> k s = clamp_k maxk initial_k \<and>
             max_k s = maxk \<and> num_records s = 0"
proof -
  let ?s0 = "\<lparr>k = clamp_k maxk initial_k, num_records = 0, next_to_replace = 0, num_features = nf,
              max_records = maxr, max_k = maxk,
              records_arr = replicate maxr (replicate nf 0),
              medoids_arr = replicate (nat maxk) (replicate nf 0),
              classes_arr = replicate maxr 0,
              randn = g, drawn = 0\<rparr>"
  have "kmeans_inv ?s0"
    using assms clamp_k_range[OF assms(1), of initial_k]
    by (simp add: kmeans_inv_def shape_ok_def k_in_range_def list_all_iff)
  from inv_shuffle[OF this] init_is_shuffle[of maxk g initial_k nf maxr] assms(1)
  show ?thesis by auto
qed

lemma masked_sum_no_records: "masked_sum i cls [] nf = replicate nf 0"
  by (simp add: masked_sum_def)

lemma normalize_zeros:
  "normalize_l2 (replicate nf 0) = (if nf = 0 then Inl ValueError else Inr (replicate nf 0))"
  by (simp add: normalize_l2_def normalized_zero list_all_iff)

lemma update_medoids_no_records:
  "records s = [] \<Longrightarrow> update_medoids is s = randomize_rows is s"
proof (induction "is" arbitrary: s)
  case Nil
  then show ?case by simp
next
  case (Cons i "is")
  show ?case
  proof (cases "num_features s = 0")
    case True
    with Cons.prems show ?thesis
      by (simp add: masked_sum_no_records normalize_zeros random_angle_def normalize_l2_def)
  next
    case False
    have "\<And>v s'. records (s'\<lparr>medoids_arr := v\<rparr>) = [] \<longleftrightarrow> records s' = []" by simp
    with False Cons.prems show ?thesis
      by (auto simp: masked_sum_no_records normalize_zeros list_all_iff random_angle_eq
               intro!: Cons.IH split: sum.splits)
  qed
qed

lemma mod_shift_neq:
  fixes a d M :: nat
  assumes "0 < d" and "d < M"
  shows "(a + d) mod M \<noteq> a mod M"
proof
  assume "(a + d) mod M = a mod M"
  then have "M dvd (a + d) - a"
    by (subst (asm) mod_eq_dvd_iff_nat) simp_all
  then have "M dvd d" by simp
  with assms show False by (auto dest: nat_dvd_not_less)
qed

subsection \<open>The ring buffer of records\<close>

lemma shape_ok_add_record:
  assumes "shape_ok s" and "length record = num_features s" and "0 < max_records s"
  shows "shape_ok (s\<lparr>records_arr := (records_arr s)[next_to_replace s := normalized record],
                next_to_replace := (next_to_replace s + 1) mod max_records s,
                num_records := min (num_records s + 1) (max_records s)\<rparr>)"
proof -
  have tail: "list_all (\<lambda>c. c = 0) (drop (min (num_records s + 1) (max_records s)) (classes_arr s))"
  proof (cases "num_records s + 1 \<le> max_records s")
    case True
    then have "min (num_records s + 1) (max_records s) = Suc (num_records s)" by simp
    with assms(1) show ?thesis by (simp add: shape_ok_def list_all_drop_Suc)
  next
    case False
    with assms(1) show ?thesis by (simp add: shape_ok_def)
  qed
  with assms show ?thesis
    by (auto simp: shape_ok_def intro: list_all_update)
qed

lemma add_records_result:
  "shape_ok s \<Longrightarrow> 0 < max_records s \<Longrightarrow> \<forall>r\<in>set rs. length r = num_features s \<Longrightarrow>
   \<exists>s'. add_records rs s = Inr s' \<and> shape_ok s' \<and>
        max_records s' = max_records s \<and> num_features s' = num_features s \<and>
        num_records s' = min (num_records s + length rs) (max_records s) \<and>
        next_to_replace s' = (next_to_replace s + length rs) mod max_records s \<and>
        (\<forall>i<max_records s. (\<forall>t<length rs. i \<noteq> (next_to_replace s + t) mod max_records s) \<longrightarrow>
             records_arr s' ! i = records_arr s ! i) \<and>
        (\<forall>t<length rs. length rs \<le> t + max_records s \<longrightarrow>
             records_arr s' ! ((next_to_replace s + t) mod max_records s) = normalized (rs ! t))"
proof (induction rs arbitrary: s)
  case Nil
  then show ?case by (simp add: shape_ok_def)
next
  case (Cons r rs)
  let ?M = "max_records s"
  let ?c = "next_to_replace s"
  let ?n = "length rs"
  let ?s1 = "s\<lparr>records_arr := (records_arr s)[?c := normalized r],
                next_to_replace := (?c + 1) mod ?M,
                num_records := min (num_records s + 1) ?M\<rparr>"
  have lr: "length r = num_features s" using Cons.prems(3) by simp
  have s1: "add_record r s = Inr ?s1"
    using Cons.prems(1) lr Cons.prems(2) by (rule add_record_result)
  have sh1: "shape_ok ?s1"
    using Cons.prems(1) lr Cons.prems(2) by (rule shape_ok_add_record)
  have c: "?c < ?M" and la: "length (records_arr s) = ?M"
    using Cons.prems(1,2) by (auto simp: shape_ok_def)
  have pre: "0 < max_records ?s1" "\<forall>r\<in>set rs. length r = num_features ?s1"
    using Cons.prems by simp_all
  from Cons.IH[OF sh1 pre] obtain s' where
    run: "add_records rs ?s1 = Inr s'" and sh: "shape_ok s'"
    and fr: "max_records s' = ?M" "num_features s' = num_features s"
    and num: "num_records s' = min (min (num_records s + 1) ?M + ?n) ?M"
    and nxt: "next_to_replace s' = ((?c + 1) mod ?M + ?n) mod ?M"
    and keep: "\<forall>i<?M. (\<forall>t<?n. i \<noteq> ((?c + 1) mod ?M + t) mod ?M) \<longrightarrow>
             records_arr s' ! i = (records_arr s)[?c := normalized r] ! i"
    and recent: "\<forall>t<?n. ?n \<le> t + ?M \<longrightarrow>
             records_arr s' ! (((?c + 1) mod ?M + t) mod ?M) = normalized (rs ! t)"
    by auto
  have slot: "((?c + 1) mod ?M + t) mod ?M = (?c + Suc t) mod ?M" for t
    by (simp add: mod_add_left_eq)
  have 1: "add_records (r # rs) s = Inr s'"
    using s1 run by simp
  have 2: "num_records s' = min (num_records s + length (r # rs)) ?M"
    using num by simp
  have 3: "next_to_replace s' = (?c + length (r # rs)) mod ?M"
    using nxt slot[of ?n] by simp
  have 4: "\<forall>i<?M. (\<forall>t<length (r # rs). i \<noteq> (?c + t) mod ?M) \<longrightarrow>
             records_arr s' ! i = records_arr s ! i"
  proof (intro allI impI)
    fix i assume i: "i < ?M" and nt: "\<forall>t<length (r # rs). i \<noteq> (?c + t) mod ?M"
    from nt[rule_format, of 0] c have "i \<noteq> ?c" by simp
    moreover have "\<forall>t<?n. i \<noteq> ((?c + 1) mod ?M + t) mod ?M"
      using nt slot by auto
    ultimately show "records_arr s' ! i = records_arr s ! i"
      using keep i by simp
  qed
  have 5: "\<forall>t<length (r # rs). length (r # rs) \<le> t + ?M \<longrightarrow>
             records_arr s' ! ((?c + t) mod ?M) = normalized ((r # rs) ! t)"
  proof (intro allI impI)
    fix t assume t: "t < length (r # rs)" and b: "length (r # rs) \<le> t + ?M"
    show "records_arr s' ! ((?c + t) mod ?M) = normalized ((r # rs) ! t)"
    proof (cases t)
      case 0
      with b have n: "?n < ?M" by simp
      have "\<forall>t'<?n. ?c \<noteq> ((?c + 1) mod ?M + t') mod ?M"
      proof (intro allI impI)
        fix t' assume "t' < ?n"
        with n have "(?c + Suc t') mod ?M \<noteq> ?c mod ?M"
          by (intro mod_shift_neq) auto
        with c have "?c \<noteq> (?c + Suc t') mod ?M"
          by simp
        then show "?c \<noteq> ((?c + 1) mod ?M + t') mod ?M"
          unfolding slot .
      qed
      with keep c have "records_arr s' ! ?c = (records_arr s)[?c := normalized r] ! ?c"
        by blast
      with 0 c la show ?thesis by simp
    next
      case (Suc t')
      with t b recent have "records_arr s' ! (((?c + 1) mod ?M + t') mod ?M) = normalized (rs ! t')"
        by simp
      then have "records_arr s' ! ((?c + Suc t') mod ?M) = normalized (rs ! t')"
        unfolding slot .
      with Suc show ?thesis by simp
    qed
  qed
  from 1 sh fr 2 3 4 5 show ?case by blast
qed

lemma slot_of_recent:
  fixes i M base :: nat
  assumes "i < M"
  shows "\<exists>d<M. (base + d) mod M = i"
proof -
  let ?d = "(i + M - base mod M) mod M"
  have le: "base mod M \<le> i + M" using assms by (simp add: trans_le_add2 less_imp_le)
  have "(base + ?d) mod M = (base mod M + (i + M - base mod M)) mod M"
    by (rule mod_add_cong) simp_all
  also have "\<dots> = (i + M) mod M" using le by simp
  also have "\<dots> = i" using assms by simp
  finally have "(base + ?d) mod M = i" .
  moreover have "?d < M" using assms by simp
  ultimately show ?thesis by blast
qed

text \<open>Rules to run the operations on a given state.\<close>

lemma replicate_numeral: "replicate (numeral n) x = x # replicate (pred_numeral n) x"
  by (simp add: numeral_eq_Suc)

lemmas run_simps = replicate_numeral init_def Let_def medoids_def slice_to_def random_angle_def
  normalize_l2_def normalized_def l2_norm_def set_k_def grow_k.simps shrink_k.simps py_index_def
  shuffle_def iterate_def add_record_def assign_row_def records_def classes_def
  masked_sum_def dot_def upt_rec

text \<open>\<open>add_record\<close> keeps the invariant whenever it returns.\<close>

lemma kmeans_inv_add_record:
  assumes "kmeans_inv s" and "add_record r s = Inr s'"
  shows "kmeans_inv s'"
proof -
  from assms(1) have sh: "shape_ok s" and kr: "k_in_range s"
    by (simp_all add: kmeans_inv_def)
  from assms(2) obtain arr where
    arr: "assign_row (records_arr s) (next_to_replace s) (normalized r) (num_features s) = Inr arr"
    and s': "s' = s\<lparr>records_arr := arr,
                     next_to_replace := (if max_records s \<le> next_to_replace s + 1 then 0
                                         else next_to_replace s + 1),
                     num_records := (if num_records s < max_records s then num_records s + 1
                                     else num_records s)\<rparr>"
    by (auto simp: add_record_def Let_def normalize_l2_def split: sum.splits if_splits)
  from arr have nx: "next_to_replace s < length (records_arr s)"
    and la: "length arr = length (records_arr s)"
    and rows: "list_all (\<lambda>r. length r = num_features s) (records_arr s) \<longrightarrow>
               list_all (\<lambda>r. length r = num_features s) arr"
    by (auto simp: assign_row_def split: if_splits intro: list_all_update)
  have tail: "list_all (\<lambda>c. c = 0)
      (drop (if num_records s < max_records s then num_records s + 1 else num_records s)
            (classes_arr s))"
    using sh by (auto simp: shape_ok_def list_all_drop_Suc)
  have "shape_ok s'"
    unfolding s' using sh nx la rows tail by (auto simp: shape_ok_def)
  moreover have "k_in_range s'"
    unfolding s' using kr by (simp add: k_in_range_def)
  ultimately show ?thesis by (simp add: kmeans_inv_def)
qed

section \<open>The claims about the clusterer\<close>

subsection \<open>The range of \<open>k\<close>\<close>

text \<open>
  Claim C7. With \<open>max_k\<close> at least 1 (and at least one feature, without which no medoid
  can be drawn), \<open>__init__\<close> returns a clusterer with \<open>1 \<le> k \<le> max_k\<close>, \<open>k\<close> being the
  requested value clamped into the range. From a clusterer that satisfies the invariant,
  \<open>set_k\<close> returns for every requested value, also 0, a negative one or one above
  \<open>max_k\<close>, with \<open>k\<close> the clamped value; \<open>iterate\<close> and \<open>shuffle\<close> return and leave \<open>k\<close>
  as it is; \<open>add_record\<close> leaves \<open>k\<close> as it is whenever it returns, and it returns for a
  record of \<open>num_features\<close> entries.
\<close>

theorem k_stays_in_range:
  "(1 \<le> maxk \<and> 0 < nf \<longrightarrow>
      (\<exists>s0. init g initial_k nf maxk maxr = Inr s0 \<and> kmeans_inv s0 \<and>
            1 \<le> k s0 \<and> k s0 \<le> max_k s0 \<and> k s0 = clamp_k maxk initial_k \<and> max_k s0 = maxk)) \<and>
   (kmeans_inv s \<longrightarrow>
      (\<exists>s'. set_k new_k s = Inr s' \<and> kmeans_inv s' \<and> 1 \<le> k s' \<and> k s' \<le> max_k s' \<and>
            k s' = clamp_k (max_k s) new_k \<and> max_k s' = max_k s) \<and>
      (\<exists>s'. iterate s = Inr s' \<and> kmeans_inv s' \<and> k s' = k s \<and> max_k s' = max_k s) \<and>
      (\<exists>s'. shuffle s = Inr s' \<and> kmeans_inv s' \<and> k s' = k s \<and> max_k s' = max_k s) \<and>
      (\<forall>s'. add_record r s = Inr s' \<longrightarrow>
            kmeans_inv s' \<and> k s' = k s \<and> max_k s' = max_k s \<and>
            1 \<le> k s' \<and> k s' \<le> max_k s') \<and>
      (length r = num_features s \<and> 0 < max_records s \<longrightarrow>
         (\<exists>s'. add_record r s = Inr s' \<and> kmeans_inv s')))"
proof (intro conjI impI)
  assume "1 \<le> maxk \<and> 0 < nf"
  then show "\<exists>s0. init g initial_k nf maxk maxr = Inr s0 \<and> kmeans_inv s0 \<and>
            1 \<le> k s0 \<and> k s0 \<le> max_k s0 \<and> k s0 = clamp_k maxk initial_k \<and> max_k s0 = maxk"
    using inv_init[of maxk nf g initial_k maxr] by (auto simp: kmeans_inv_def k_in_range_def)
next
  assume "kmeans_inv s"
  then show "\<exists>s'. set_k new_k s = Inr s' \<and> kmeans_inv s' \<and> 1 \<le> k s' \<and> k s' \<le> max_k s' \<and>
            k s' = clamp_k (max_k s) new_k \<and> max_k s' = max_k s"
    using inv_set_k[of s new_k] by (auto simp: kmeans_inv_def k_in_range_def)
next
  assume "kmeans_inv s"
  then show "\<exists>s'. iterate s = Inr s' \<and> kmeans_inv s' \<and> k s' = k s \<and> max_k s' = max_k s"
    using inv_iterate[of s] by auto
next
  assume "kmeans_inv s"
  then show "\<exists>s'. shuffle s = Inr s' \<and> kmeans_inv s' \<and> k s' = k s \<and> max_k s' = max_k s"
    using inv_shuffle[of s] by auto
next
  assume i: "kmeans_inv s"
  show "\<forall>s'. add_record r s = Inr s' \<longrightarrow>
            kmeans_inv s' \<and> k s' = k s \<and> max_k s' = max_k s \<and>
            1 \<le> k s' \<and> k s' \<le> max_k s'"
  proof (intro allI impI)
    fix s' assume a: "add_record r s = Inr s'"
    from kmeans_inv_add_record[OF i a] have i': "kmeans_inv s'" .
    from add_record_frame[OF a] have "k s' = k s" "max_k s' = max_k s"
      by simp_all
    with i' show "kmeans_inv s' \<and> k s' = k s \<and> max_k s' = max_k s \<and>
            1 \<le> k s' \<and> k s' \<le> max_k s'"
      by (simp add: kmeans_inv_def k_in_range_def)
  qed
next
  assume "kmeans_inv s" and "length r = num_features s \<and> 0 < max_records s"
  then show "\<exists>s'. add_record r s = Inr s' \<and> kmeans_inv s'"
    using inv_add_record[of s r] by auto
qed

theorem k_stays_in_range_witness:
  "(1::int) \<le> 2 \<and> (0::nat) < 2 \<and>
   kmeans_inv \<lparr>k = 2, num_records = 1, next_to_replace = 1, num_features = 2, max_records = 3, max_k = 2,
        records_arr = [[0, 1], [0, 0], [0, 0]], medoids_arr = [[1, 0], [0, 1]],
        classes_arr = [1, 0, 0], randn = (\<lambda>n. 1), drawn = 6\<rparr> \<and>
   (\<exists>s0. init (\<lambda>n. 1) 5 2 2 3 = Inr s0 \<and> kmeans_inv s0 \<and> k s0 = 2 \<and> max_k s0 = 2) \<and>
   (\<exists>s'. set_k 0 \<lparr>k = 2, num_records = 1, next_to_replace = 1, num_features = 2,
                   max_records = 3, max_k = 2,
                   records_arr = [[0, 1], [0, 0], [0, 0]], medoids_arr = [[1, 0], [0, 1]],
                   classes_arr = [1, 0, 0], randn = (\<lambda>n. 1), drawn = 6\<rparr> = Inr s' \<and>
         k s' = 1 \<and> max_k s' = 2) \<and>
   (\<exists>s'. add_record [0, 2]
              \<lparr>k = 2, num_records = 1, next_to_replace = 1, num_features = 2,
               max_records = 3, max_k = 2,
               records_arr = [[0, 1], [0, 0], [0, 0]], medoids_arr = [[1, 0], [0, 1]],
               classes_arr = [1, 0, 0], randn = (\<lambda>n. 1), drawn = 6\<rparr> = Inr s' \<and> kmeans_inv s')"
proof -
  let ?w = "\<lparr>k = 2, num_records = 1, next_to_replace = 1, num_features = 2, max_records = 3,
             max_k = 2, records_arr = [[0, 1], [0, 0], [0, 0]], medoids_arr = [[1, 0], [0, 1]],
             classes_arr = [1, 0, 0], randn = (\<lambda>n. 1::real), drawn = 6\<rparr>"
  have h: "kmeans_inv ?w"
    by (simp add: kmeans_inv_def shape_ok_def k_in_range_def)
  have r: "length [0, 2 :: real] = num_features ?w \<and> 0 < max_records ?w"
    by simp
  from k_stays_in_range [where maxk = 2 and nf = 2 and g = "\<lambda>n. 1" and initial_k = 5
      and maxr = 3 and s = ?w and new_k = 0 and r = "[0, 2]"] h r
  show ?thesis
    by (simp add: clamp_k_def) blast
qed

subsection \<open>The classes and \<open>k\<close>\<close>

text \<open>
  Claim C8, as the code has it. \<open>iterate\<close> writes the classes, and after it every active
  record has a class below \<open>k\<close>. \<open>add_record\<close>, \<open>shuffle\<close> and a \<open>set_k\<close> that does not
  lower \<open>k\<close> keep that. \<open>set_k\<close> never writes the classes, so lowering \<open>k\<close> can leave a
  class that is not below the new \<open>k\<close>, until the next \<open>iterate\<close>.
\<close>

theorem classes_within_k:
  "kmeans_inv s \<longrightarrow>
     (\<exists>s'. iterate s = Inr s' \<and> classes_ok s') \<and>
     (classes_ok s \<longrightarrow>
        (\<forall>s'. add_record r s = Inr s' \<longrightarrow> classes_ok s') \<and>
        (\<exists>s'. shuffle s = Inr s' \<and> classes_ok s') \<and>
        (k s \<le> clamp_k (max_k s) new_k \<longrightarrow> (\<exists>s'. set_k new_k s = Inr s' \<and> classes_ok s')))"
proof (intro conjI impI)
  assume "kmeans_inv s"
  then show "\<exists>s'. iterate s = Inr s' \<and> classes_ok s'"
    using inv_iterate[of s] by auto
next
  assume "kmeans_inv s" "classes_ok s"
  then show "\<forall>s'. add_record r s = Inr s' \<longrightarrow> classes_ok s'"
    by (auto intro: classes_ok_add_record)
next
  assume "kmeans_inv s" "classes_ok s"
  then show "\<exists>s'. shuffle s = Inr s' \<and> classes_ok s'"
    using inv_shuffle[of s] by (auto simp: classes_ok_def classes_def)
next
  assume i: "kmeans_inv s" and c: "classes_ok s" and le: "k s \<le> clamp_k (max_k s) new_k"
  from set_k_result[OF i, of new_k] obtain A where
    "set_k new_k s =
         Inr (s\<lparr>k := clamp_k (max_k s) new_k, medoids_arr := A,
                drawn := drawn s + nat (clamp_k (max_k s) new_k - k s) * num_features s\<rparr>)"
    by blast
  moreover have "classes_ok (s\<lparr>k := clamp_k (max_k s) new_k, medoids_arr := A,
                drawn := drawn s + nat (clamp_k (max_k s) new_k - k s) * num_features s\<rparr>)"
    using c le by (auto simp: classes_ok_def classes_def list_all_iff)
  ultimately show "\<exists>s'. set_k new_k s = Inr s' \<and> classes_ok s'" by simp
qed

theorem classes_within_k_witness:
  "kmeans_inv \<lparr>k = 1, num_records = 1, next_to_replace = 1, num_features = 2, max_records = 3, max_k = 2,
        records_arr = [[0, 1], [0, 0], [0, 0]], medoids_arr = [[1, 0], [0, 1]],
        classes_arr = [0, 0, 0], randn = (\<lambda>n. 1), drawn = 6\<rparr> \<and>
   classes_ok \<lparr>k = 1, num_records = 1, next_to_replace = 1, num_features = 2, max_records = 3,
        max_k = 2, records_arr = [[0, 1], [0, 0], [0, 0]], medoids_arr = [[1, 0], [0, 1]],
        classes_arr = [0, 0, 0], randn = (\<lambda>n. 1), drawn = 6\<rparr> \<and>
   k \<lparr>k = 1, num_records = 1, next_to_replace = 1, num_features = 2, max_records = 3,
        max_k = 2, records_arr = [[0, 1], [0, 0], [0, 0]], medoids_arr = [[1, 0], [0, 1]],
        classes_arr = [0, 0, 0], randn = (\<lambda>n. 1), drawn = 6\<rparr> \<le> clamp_k 2 2 \<and>
   (\<exists>s'. iterate \<lparr>k = 1, num_records = 1, next_to_replace = 1, num_features = 2,
        max_records = 3, max_k = 2, records_arr = [[0, 1], [0, 0], [0, 0]],
        medoids_arr = [[1, 0], [0, 1]], classes_arr = [0, 0, 0], randn = (\<lambda>n. 1),
        drawn = 6\<rparr> = Inr s' \<and> classes_ok s') \<and>
   (\<exists>s'. set_k 2 \<lparr>k = 1, num_records = 1, next_to_replace = 1, num_features = 2,
        max_records = 3, max_k = 2, records_arr = [[0, 1], [0, 0], [0, 0]],
        medoids_arr = [[1, 0], [0, 1]], classes_arr = [0, 0, 0], randn = (\<lambda>n. 1),
        drawn = 6\<rparr> = Inr s' \<and> classes_ok s')"
proof -
  let ?w = "\<lparr>k = 1, num_records = 1, next_to_replace = 1, num_features = 2, max_records = 3,
             max_k = 2, records_arr = [[0, 1], [0, 0], [0, 0]], medoids_arr = [[1, 0], [0, 1]],
             classes_arr = [0, 0, 0], randn = (\<lambda>n. 1::real), drawn = 6\<rparr>"
  have h: "kmeans_inv ?w"
    by (simp add: kmeans_inv_def shape_ok_def k_in_range_def)
  have c: "classes_ok ?w"
    by (simp add: classes_ok_def classes_def)
  have l: "k ?w \<le> clamp_k (max_k ?w) 2"
    by (simp add: clamp_k_def)
  from classes_within_k [where s = ?w and new_k = 2 and r = "[0, 2]"] h c l
  show ?thesis
    by simp
qed

text \<open>
  Claim C8 as stated fails for \<open>set_k\<close>: a clusterer built by \<open>__init__\<close> with \<open>k = 2\<close>, one
  record added and classified by \<open>iterate\<close> into class 1, then \<open>set_k(1)\<close>: the record
  keeps class 1, which is not below \<open>k = 1\<close>.
\<close>

theorem classes_within_k_counterexample:
  "init (\<lambda>n. if n mod 4 = 0 \<or> n mod 4 = 3 then 1 else 0) 2 2 2 3 =
     Inr \<lparr>k = 2, num_records = 0, next_to_replace = 0, num_features = 2, max_records = 3,
          max_k = 2, records_arr = [[0, 0], [0, 0], [0, 0]], medoids_arr = [[1, 0], [0, 1]],
          classes_arr = [0, 0, 0],
          randn = (\<lambda>n. if n mod 4 = 0 \<or> n mod 4 = 3 then 1 else 0), drawn = 4\<rparr> \<and>
   add_record [0, 2]
     \<lparr>k = 2, num_records = 0, next_to_replace = 0, num_features = 2, max_records = 3,
      max_k = 2, records_arr = [[0, 0], [0, 0], [0, 0]], medoids_arr = [[1, 0], [0, 1]],
      classes_arr = [0, 0, 0],
      randn = (\<lambda>n. if n mod 4 = 0 \<or> n mod 4 = 3 then 1 else 0), drawn = 4\<rparr> =
     Inr \<lparr>k = 2, num_records = 1, next_to_replace = 1, num_features = 2, max_records = 3,
          max_k = 2, records_arr = [[0, 1], [0, 0], [0, 0]], medoids_arr = [[1, 0], [0, 1]],
          classes_arr = [0, 0, 0],
          randn = (\<lambda>n. if n mod 4 = 0 \<or> n mod 4 = 3 then 1 else 0), drawn = 4\<rparr> \<and>
   iterate
     \<lparr>k = 2, num_records = 1, next_to_replace = 1, num_features = 2, max_records = 3,
      max_k = 2, records_arr = [[0, 1], [0, 0], [0, 0]], medoids_arr = [[1, 0], [0, 1]],
      classes_arr = [0, 0, 0],
      randn = (\<lambda>n. if n mod 4 = 0 \<or> n mod 4 = 3 then 1 else 0), drawn = 4\<rparr> =
     Inr \<lparr>k = 2, num_records = 1, next_to_replace = 1, num_features = 2, max_records = 3,
          max_k = 2, records_arr = [[0, 1], [0, 0], [0, 0]], medoids_arr = [[1, 0], [0, 1]],
          classes_arr = [1, 0, 0],
          randn = (\<lambda>n. if n mod 4 = 0 \<or> n mod 4 = 3 then 1 else 0), drawn = 6\<rparr> \<and>
   classes_ok
     \<lparr>k = 2, num_records = 1, next_to_replace = 1, num_features = 2, max_records = 3,
      max_k = 2, records_arr = [[0, 1], [0, 0], [0, 0]], medoids_arr = [[1, 0], [0, 1]],
      classes_arr = [1, 0, 0],
      randn = (\<lambda>n. if n mod 4 = 0 \<or> n mod 4 = 3 then 1 else 0), drawn = 6\<rparr> \<and>
   set_k 1
     \<lparr>k = 2, num_records = 1, next_to_replace = 1, num_features = 2, max_records = 3,
      max_k = 2, records_arr = [[0, 1], [0, 0], [0, 0]], medoids_arr = [[1, 0], [0, 1]],
      classes_arr = [1, 0, 0],
      randn = (\<lambda>n. if n mod 4 = 0 \<or> n mod 4 = 3 then 1 else 0), drawn = 6\<rparr> =
     Inr \<lparr>k = 1, num_records = 1, next_to_replace = 1, num_features = 2, max_records = 3,
          max_k = 2, records_arr = [[0, 1], [0, 0], [0, 0]], medoids_arr = [[1, 0], [0, 1]],
          classes_arr = [1, 0, 0],
          randn = (\<lambda>n. if n mod 4 = 0 \<or> n mod 4 = 3 then 1 else 0), drawn = 6\<rparr> \<and>
   \<not> classes_ok
     \<lparr>k = 1, num_records = 1, next_to_replace = 1, num_features = 2, max_records = 3,
      max_k = 2, records_arr = [[0, 1], [0, 0], [0, 0]], medoids_arr = [[1, 0], [0, 1]],
      classes_arr = [1, 0, 0],
      randn = (\<lambda>n. if n mod 4 = 0 \<or> n mod 4 = 3 then 1 else 0), drawn = 6\<rparr>"
  by (simp add: run_simps classes_ok_def)

subsection \<open>Lowering and raising \<open>k\<close>\<close>

text \<open>
  Claim C3, as the code has it. A \<open>set_k\<close> that does not raise \<open>k\<close> leaves the whole array
  of medoids as it is, so the medoids beyond the new bound keep their stored values. A
  \<open>set_k\<close> that raises \<open>k\<close> writes a freshly drawn random angle into every position it
  activates, in the order they are drawn, and leaves the medoids that were active alone:
  the stored values are not used again.
\<close>

theorem set_k_stored_medoids:
  "kmeans_inv s \<longrightarrow>
    (clamp_k (max_k s) new_k \<le> k s \<longrightarrow>
       (\<exists>s'. set_k new_k s = Inr s' \<and> k s' = clamp_k (max_k s) new_k \<and>
             medoids_arr s' = medoids_arr s)) \<and>
    (k s < clamp_k (max_k s) new_k \<longrightarrow>
       (\<exists>s'. set_k new_k s = Inr s' \<and> k s' = clamp_k (max_k s) new_k \<and>
             (\<forall>i. k s \<le> int i \<and> int i < clamp_k (max_k s) new_k \<longrightarrow>
                  medoids_arr s' ! i = fresh_angle s (i - nat (k s))) \<and>
             (\<forall>i<nat (k s). medoids_arr s' ! i = medoids_arr s ! i)))"
proof (intro conjI impI)
  let ?c = "clamp_k (max_k s) new_k"
  assume i: "kmeans_inv s"
  from set_k_result[OF i, of new_k] obtain A where
    A: "set_k new_k s =
         Inr (s\<lparr>k := ?c, medoids_arr := A, drawn := drawn s + nat (?c - k s) * num_features s\<rparr>)"
    and len: "length A = length (medoids_arr s)"
    and keep: "\<forall>i<length A. int i < k s \<or> ?c \<le> int i \<longrightarrow> A ! i = medoids_arr s ! i"
    and new: "\<forall>i. k s \<le> int i \<and> int i < ?c \<longrightarrow> A ! i = fresh_angle s (i - nat (k s))"
    by blast
  {
    assume le: "?c \<le> k s"
    have "A = medoids_arr s"
    proof (rule nth_equalityI[OF len])
      fix i assume "i < length A"
      moreover from le have "int i < k s \<or> ?c \<le> int i" by linarith
      ultimately show "A ! i = medoids_arr s ! i" using keep by blast
    qed
    with A show "\<exists>s'. set_k new_k s = Inr s' \<and> k s' = ?c \<and> medoids_arr s' = medoids_arr s"
      by simp
  }
  {
    assume lt: "k s < ?c"
    have kl: "k s \<le> int (length A)"
      using i len by (simp add: kmeans_inv_def shape_ok_def k_in_range_def)
    have "\<forall>i<nat (k s). A ! i = medoids_arr s ! i"
      using keep kl by auto
    with A new show "\<exists>s'. set_k new_k s = Inr s' \<and> k s' = ?c \<and>
             (\<forall>i. k s \<le> int i \<and> int i < ?c \<longrightarrow>
                  medoids_arr s' ! i = fresh_angle s (i - nat (k s))) \<and>
             (\<forall>i<nat (k s). medoids_arr s' ! i = medoids_arr s ! i)"
      by simp
  }
qed

theorem set_k_stored_medoids_witness:
  "kmeans_inv \<lparr>k = 1, num_records = 0, next_to_replace = 0, num_features = 2, max_records = 3, max_k = 2,
        records_arr = [[0, 0], [0, 0], [0, 0]], medoids_arr = [[1, 0], [0, 1]],
        classes_arr = [0, 0, 0], randn = (\<lambda>n. 1), drawn = 4\<rparr> \<and>
   (\<exists>s'. set_k 0 \<lparr>k = 1, num_records = 0, next_to_replace = 0, num_features = 2,
        max_records = 3, max_k = 2, records_arr = [[0, 0], [0, 0], [0, 0]],
        medoids_arr = [[1, 0], [0, 1]], classes_arr = [0, 0, 0], randn = (\<lambda>n. 1),
        drawn = 4\<rparr> = Inr s' \<and> k s' = 1 \<and> medoids_arr s' = [[1, 0], [0, 1]]) \<and>
   (\<exists>s'. set_k 2 \<lparr>k = 1, num_records = 0, next_to_replace = 0, num_features = 2,
        max_records = 3, max_k = 2, records_arr = [[0, 0], [0, 0], [0, 0]],
        medoids_arr = [[1, 0], [0, 1]], classes_arr = [0, 0, 0], randn = (\<lambda>n. 1),
        drawn = 4\<rparr> = Inr s' \<and> k s' = 2 \<and>
        medoids_arr s' ! 1 =
          fresh_angle \<lparr>k = 1, num_records = 0, next_to_replace = 0, num_features = 2,
            max_records = 3, max_k = 2, records_arr = [[0, 0], [0, 0], [0, 0]],
            medoids_arr = [[1, 0], [0, 1]], classes_arr = [0, 0, 0], randn = (\<lambda>n. 1),
            drawn = 4\<rparr> 0 \<and>
        medoids_arr s' ! 0 = [1, 0])"
proof -
  let ?w = "\<lparr>k = 1, num_records = 0, next_to_replace = 0, num_features = 2, max_records = 3,
             max_k = 2, records_arr = [[0, 0], [0, 0], [0, 0]], medoids_arr = [[1, 0], [0, 1]],
             classes_arr = [0, 0, 0], randn = (\<lambda>n. 1::real), drawn = 4\<rparr>"
  have h: "kmeans_inv ?w"
    by (simp add: kmeans_inv_def shape_ok_def k_in_range_def)
  have lo: "clamp_k (max_k ?w) 0 \<le> k ?w" and c0: "clamp_k (max_k ?w) 0 = 1"
    by (simp_all add: clamp_k_def)
  have hi: "k ?w < clamp_k (max_k ?w) 2" and c2: "clamp_k (max_k ?w) 2 = 2"
    by (simp_all add: clamp_k_def)
  from set_k_stored_medoids [where s = ?w and new_k = 0] h lo
  have a: "\<exists>s'. set_k 0 ?w = Inr s' \<and> k s' = 1 \<and> medoids_arr s' = [[1, 0], [0, 1]]"
    unfolding c0 by simp
  from set_k_stored_medoids [where s = ?w and new_k = 2] h hi
  obtain s' where s': "set_k 2 ?w = Inr s'" "k s' = 2"
    "\<forall>i. k ?w \<le> int i \<and> int i < 2 \<longrightarrow> medoids_arr s' ! i = fresh_angle ?w (i - nat (k ?w))"
    "\<forall>i<nat (k ?w). medoids_arr s' ! i = medoids_arr ?w ! i"
    unfolding c2 by blast
  from s'(3)[rule_format, of 1] have "medoids_arr s' ! 1 = fresh_angle ?w 0" by simp
  moreover from s'(4)[rule_format, of 0] have "medoids_arr s' ! 0 = [1, 0]" by simp
  ultimately show ?thesis using h a s'(1,2) by blast
qed

text \<open>
  Claim C3 as stated fails: after \<open>__init__\<close> with \<open>k = 2\<close>, \<open>set_k(1)\<close> and then \<open>set_k(2)\<close>,
  the second medoid is a new random angle, \<open>[1, 0]\<close>, and no longer the stored \<open>[0, 1]\<close>.
\<close>

theorem set_k_stored_medoids_counterexample:
  "init (\<lambda>n. if n mod 4 = 0 \<or> n mod 4 = 3 then 1 else 0) 2 2 2 3 =
     Inr \<lparr>k = 2, num_records = 0, next_to_replace = 0, num_features = 2, max_records = 3,
          max_k = 2, records_arr = [[0, 0], [0, 0], [0, 0]], medoids_arr = [[1, 0], [0, 1]],
          classes_arr = [0, 0, 0],
          randn = (\<lambda>n. if n mod 4 = 0 \<or> n mod 4 = 3 then 1 else 0), drawn = 4\<rparr> \<and>
   set_k 1
     \<lparr>k = 2, num_records = 0, next_to_replace = 0, num_features = 2, max_records = 3,
      max_k = 2, records_arr = [[0, 0], [0, 0], [0, 0]], medoids_arr = [[1, 0], [0, 1]],
      classes_arr = [0, 0, 0],
      randn = (\<lambda>n. if n mod 4 = 0 \<or> n mod 4 = 3 then 1 else 0), drawn = 4\<rparr> =
     Inr \<lparr>k = 1, num_records = 0, next_to_replace = 0, num_features = 2, max_records = 3,
          max_k = 2, records_arr = [[0, 0], [0, 0], [0, 0]], medoids_arr = [[1, 0], [0, 1]],
          classes_arr = [0, 0, 0],
          randn = (\<lambda>n. if n mod 4 = 0 \<or> n mod 4 = 3 then 1 else 0), drawn = 4\<rparr> \<and>
   set_k 2
     \<lparr>k = 1, num_records = 0, next_to_replace = 0, num_features = 2, max_records = 3,
      max_k = 2, records_arr = [[0, 0], [0, 0], [0, 0]], medoids_arr = [[1, 0], [0, 1]],
      classes_arr = [0, 0, 0],
      randn = (\<lambda>n. if n mod 4 = 0 \<or> n mod 4 = 3 then 1 else 0), drawn = 4\<rparr> =
     Inr \<lparr>k = 2, num_records = 0, next_to_replace = 0, num_features = 2, max_records = 3,
          max_k = 2, records_arr = [[0, 0], [0, 0], [0, 0]], medoids_arr = [[1, 0], [1, 0]],
          classes_arr = [0, 0, 0],
          randn = (\<lambda>n. if n mod 4 = 0 \<or> n mod 4 = 3 then 1 else 0), drawn = 6\<rparr> \<and>
   [[1, 0], [1, 0]] ! 1 \<noteq> [[1, 0], [0, 1 :: real]] ! 1"
  by (simp add: run_simps)

subsection \<open>No records\<close>

text \<open>
  Claim C9. With no record at all, \<open>iterate\<close> returns without an error: the classes are
  left as they are, the sum for every medoid is the zero vector, and each of the \<open>k\<close>
  active medoids becomes the next random angle, with entries that are not negative, and
  of squared norm 1 when the samples drawn are not all zero.
\<close>

theorem iterate_without_records:
  assumes "kmeans_inv s" and "num_records s = 0"
  shows "\<exists>s'. iterate s = Inr s' \<and> classes_arr s' = classes_arr s \<and> classes s' = [] \<and>
              records_arr s' = records_arr s \<and>
              (\<forall>i. masked_sum i (classes s) (records s) (num_features s)
                     = replicate (num_features s) 0) \<and>
              (\<forall>i<nat (k s). medoids_arr s' ! i = fresh_angle s i \<and>
                     (\<forall>x\<in>set (medoids_arr s' ! i). 0 \<le> x) \<and>
                     (draws_nonzero s \<longrightarrow> sq_norm (medoids_arr s' ! i) = 1))"
proof -
  have r: "records s = []" using assms(2) by (simp add: records_def)
  have lm: "length (medoids s) = nat (k s)"
    using assms(1) by (rule inv_length_medoids)
  from assms(1) have "1 \<le> k s" by (simp add: kmeans_inv_def k_in_range_def)
  with lm have ne: "medoids s \<noteq> []" by auto
  have "s\<lparr>classes_arr := classes_arr s\<rparr> = s" by simp
  then have "iterate s = update_medoids [0..<length (medoids s)] s"
    using ne r assms(2) by (simp add: iterate_def Let_def medoids_def)
  also have "\<dots> = shuffle s"
    using r by (simp add: update_medoids_no_records shuffle_def)
  finally have it: "iterate s = shuffle s" .
  from shuffle_result[OF assms(1)] obtain A where
    A: "shuffle s = Inr (s\<lparr>medoids_arr := A, drawn := drawn s + nat (k s) * num_features s\<rparr>)"
    and new: "\<forall>i<nat (k s). A ! i = fresh_angle s i"
    by blast
  show ?thesis
    unfolding it A using new assms(2) r
    by (auto simp: classes_def masked_sum_no_records fresh_angle_unit
             dest: fresh_angle_nonneg[rule_format])
qed

theorem iterate_without_records_witness:
  "kmeans_inv \<lparr>k = 2, num_records = 0, next_to_replace = 0, num_features = 2, max_records = 3,
        max_k = 2, records_arr = [[0, 0], [0, 0], [0, 0]], medoids_arr = [[1, 0], [0, 1]],
        classes_arr = [0, 0, 0], randn = (\<lambda>n. 1), drawn = 4\<rparr> \<and>
   num_records \<lparr>k = 2, num_records = 0, next_to_replace = 0, num_features = 2, max_records = 3,
        max_k = 2, records_arr = [[0, 0], [0, 0], [0, 0]], medoids_arr = [[1, 0], [0, 1]],
        classes_arr = [0, 0, 0], randn = (\<lambda>n. 1::real), drawn = 4\<rparr> = 0 \<and>
   (\<exists>s'. iterate \<lparr>k = 2, num_records = 0, next_to_replace = 0, num_features = 2,
        max_records = 3, max_k = 2, records_arr = [[0, 0], [0, 0], [0, 0]],
        medoids_arr = [[1, 0], [0, 1]], classes_arr = [0, 0, 0], randn = (\<lambda>n. 1),
        drawn = 4\<rparr> = Inr s' \<and> classes_arr s' = [0, 0, 0] \<and> classes s' = [] \<and>
        list_all (\<lambda>x. 0 \<le> x) (medoids_arr s' ! 1))"
proof -
  let ?w = "\<lparr>k = 2, num_records = 0, next_to_replace = 0, num_features = 2, max_records = 3,
             max_k = 2, records_arr = [[0, 0], [0, 0], [0, 0]], medoids_arr = [[1, 0], [0, 1]],
             classes_arr = [0, 0, 0], randn = (\<lambda>n. 1::real), drawn = 4\<rparr>"
  have h: "kmeans_inv ?w"
    by (simp add: kmeans_inv_def shape_ok_def k_in_range_def)
  have z: "num_records ?w = 0"
    by simp
  from iterate_without_records [OF h z] obtain s' where
    s': "iterate ?w = Inr s'" "classes_arr s' = classes_arr ?w" "classes s' = []"
      "\<forall>i<nat (k ?w). medoids_arr s' ! i = fresh_angle ?w i \<and>
           (\<forall>x\<in>set (medoids_arr s' ! i). 0 \<le> x) \<and>
           (draws_nonzero ?w \<longrightarrow> sq_norm (medoids_arr s' ! i) = 1)"
    by blast
  from s'(4)[rule_format, of 1] have "\<forall>x\<in>set (medoids_arr s' ! 1). 0 \<le> x"
    by simp
  with s'(1,2,3) h show ?thesis
    by (simp add: list_all_iff)
qed

subsection \<open>Adding records\<close>

text \<open>
  Claim C6. After more than \<open>max_records\<close> records have been added (each of
  \<open>num_features\<close> entries), the count of records is \<open>max_records\<close>, the write cursor
  has advanced by their number modulo \<open>max_records\<close>, each of the last \<open>max_records\<close>
  inputs is stored normalised in the row that its turn gives it, and every row holds one
  of these last inputs: the older ones have been overwritten, oldest first.
\<close>

theorem ring_buffer:
  assumes "shape_ok s" and "0 < max_records s" and "\<forall>r\<in>set rs. length r = num_features s"
    and "max_records s < length rs"
  shows "\<exists>s'. add_records rs s = Inr s' \<and>
              num_records s' = max_records s \<and> max_records s' = max_records s \<and>
              next_to_replace s' = (next_to_replace s + length rs) mod max_records s \<and>
              (\<forall>t<length rs. length rs \<le> t + max_records s \<longrightarrow>
                   records_arr s' ! ((next_to_replace s + t) mod max_records s)
                     = normalized (rs ! t)) \<and>
              (\<forall>i<max_records s. \<exists>t<length rs. length rs \<le> t + max_records s \<and>
                   i = (next_to_replace s + t) mod max_records s \<and>
                   records_arr s' ! i = normalized (rs ! t))"
proof -
  let ?M = "max_records s" let ?n = "length rs" let ?c = "next_to_replace s"
  from add_records_result[OF assms(1,2,3)] obtain s' where
    run: "add_records rs s = Inr s'" and mr: "max_records s' = ?M"
    and num: "num_records s' = min (num_records s + ?n) ?M"
    and nxt: "next_to_replace s' = (?c + ?n) mod ?M"
    and recent: "\<forall>t<?n. ?n \<le> t + ?M \<longrightarrow> records_arr s' ! ((?c + t) mod ?M) = normalized (rs ! t)"
    by blast
  have full: "num_records s' = ?M" using num assms(4) by simp
  have cover: "\<exists>t<?n. ?n \<le> t + ?M \<and> i = (?c + t) mod ?M \<and>
                   records_arr s' ! i = normalized (rs ! t)" if "i < ?M" for i
  proof -
    from slot_of_recent[OF that, of "?c + (?n - ?M)"] obtain d where
      d: "d < ?M" "(?c + (?n - ?M) + d) mod ?M = i" by blast
    let ?t = "?n - ?M + d"
    have t: "?t < ?n" "?n \<le> ?t + ?M" using d(1) assms(4) by simp_all
    have "(?c + ?t) mod ?M = i" using d(2) by (simp add: add.assoc)
    with recent t show ?thesis by (intro exI[where x="?t"]) auto
  qed
  from run full mr nxt recent cover show ?thesis by blast
qed

theorem ring_buffer_witness:
  "shape_ok \<lparr>k = 2, num_records = 0, next_to_replace = 0, num_features = 2, max_records = 2,
        max_k = 2, records_arr = [[0, 0], [0, 0]], medoids_arr = [[1, 0], [0, 1]],
        classes_arr = [0, 0], randn = (\<lambda>n. 1), drawn = 4\<rparr> \<and>
   list_all (\<lambda>r. length r = 2) [[2, 0], [0, 3], [-4, 0 :: real]] \<and>
   (2::nat) < length [[2, 0], [0, 3], [-4, 0 :: real]] \<and>
   (\<exists>s'. add_records [[2, 0], [0, 3], [-4, 0]]
        \<lparr>k = 2, num_records = 0, next_to_replace = 0, num_features = 2, max_records = 2,
         max_k = 2, records_arr = [[0, 0], [0, 0]], medoids_arr = [[1, 0], [0, 1]],
         classes_arr = [0, 0], randn = (\<lambda>n. 1), drawn = 4\<rparr> = Inr s' \<and>
        num_records s' = 2 \<and> next_to_replace s' = 1 \<and>
        records_arr s' ! 1 = normalized [0, 3] \<and> records_arr s' ! 0 = normalized [-4, 0])"
proof -
  let ?w = "\<lparr>k = 2, num_records = 0, next_to_replace = 0, num_features = 2, max_records = 2,
             max_k = 2, records_arr = [[0, 0], [0, 0]], medoids_arr = [[1, 0], [0, 1]],
             classes_arr = [0, 0], randn = (\<lambda>n. 1::real), drawn = 4\<rparr>"
  let ?rs = "[[2, 0], [0, 3], [-4, 0 :: real]]"
  have h: "shape_ok ?w"
    by (simp add: shape_ok_def)
  have m: "0 < max_records ?w" and l: "\<forall>r\<in>set ?rs. length r = num_features ?w"
    and n: "max_records ?w < length ?rs"
    by simp_all
  from ring_buffer [OF h m l n] obtain s' where
    s': "add_records ?rs ?w = Inr s'" "num_records s' = max_records ?w"
      "next_to_replace s' = (next_to_replace ?w + length ?rs) mod max_records ?w"
      "\<forall>t<length ?rs. length ?rs \<le> t + max_records ?w \<longrightarrow>
           records_arr s' ! ((next_to_replace ?w + t) mod max_records ?w) = normalized (?rs ! t)"
    by blast
  from s'(4)[rule_format, of 1] have a: "records_arr s' ! 1 = normalized [0, 3]"
    by simp
  from s'(4)[rule_format, of 2] have b: "records_arr s' ! 0 = normalized [-4, 0]"
    by simp
  from s'(1,2,3) a b h show ?thesis
    by simp
qed

text \<open>The same run, evaluated: the first record has been overwritten by the third.\<close>

lemma ring_buffer_example:
  "add_records [[2, 0], [0, 3], [-4, 0]]
        \<lparr>k = 2, num_records = 0, next_to_replace = 0, num_features = 2, max_records = 2,
         max_k = 2, records_arr = [[0, 0], [0, 0]], medoids_arr = [[1, 0], [0, 1]],
         classes_arr = [0, 0], randn = (\<lambda>n. 1), drawn = 4\<rparr> =
   Inr \<lparr>k = 2, num_records = 2, next_to_replace = 1, num_features = 2, max_records = 2,
         max_k = 2, records_arr = [[-1, 0], [0, 1]], medoids_arr = [[1, 0], [0, 1]],
         classes_arr = [0, 0], randn = (\<lambda>n. 1), drawn = 4\<rparr>"
  by (simp add: run_simps real_sqrt_abs2 flip: power2_eq_square)

text \<open>
  A record of one entry is not rejected: numpy repeats the entry along the row, and the
  stored row is not the normalised record. The theorems above are about records of
  \<open>num_features\<close> entries.
\<close>

lemma add_record_one_entry:
  "add_record [5]
        \<lparr>k = 2, num_records = 0, next_to_replace = 0, num_features = 2, max_records = 2,
         max_k = 2, records_arr = [[0, 0], [0, 0]], medoids_arr = [[1, 0], [0, 1]],
         classes_arr = [0, 0], randn = (\<lambda>n. 1), drawn = 4\<rparr> =
   Inr \<lparr>k = 2, num_records = 1, next_to_replace = 1, num_features = 2, max_records = 2,
         max_k = 2, records_arr = [[1, 1], [0, 0]], medoids_arr = [[1, 0], [0, 1]],
         classes_arr = [0, 0], randn = (\<lambda>n. 1), drawn = 4\<rparr>"
  by (simp add: run_simps real_sqrt_abs2 flip: power2_eq_square)

end
